theory Spec2Isabelle
  imports Main
begin

section \<open>Data model\<close>

text \<open>
  The engine of the repository consists of three classes: \<open>OrderManager\<close> (Order.ts),
  \<open>Bot\<close> (the variant of Bot.ts that has a \<open>type\<close> and a per-second counter, which is
  the one Controller/index.ts imports \<open>BOT_TYPE\<close> from) and \<open>Controller\<close>
  (Controller/index.ts). All three mutate shared objects, so the model threads one
  system state through every operation. Orders and bots are objects with identity:
  they live in two heaps (lists indexed by reference), and the queues, a bot's
  \<open>currentOrder\<close> and the controller's \<open>queue\<close> hold references. The older variant
  of \<open>Bot\<close>, with one timeout per order instead of a counter, has the same \<open>destroy\<close>.

  Numbers are natural numbers and integers without bound. Time is not modelled: what
  is left of it is the order of events, a tick being one run of the callback of one
  interval.
\<close>

datatype OrderStatus = PENDING | COMPLETE

datatype OrderType = ORDER_TYPE_NORMAL | ORDER_TYPE_VIP

datatype EventType = ORDER_ADDED | ORDER_UPDATED | ORDER_COUNTER

datatype BotStatus = RUN | IDLE

datatype BotType = BOT_TYPE_NORMAL | BOT_TYPE_VIP

record Order =
  status :: OrderStatus
  uid :: nat
  orderType :: OrderType
  counter :: int

text \<open>
  \<open>counterHandle\<close> is \<open>None\<close> while the field is still undefined. A handle returned
  by \<open>setInterval\<close> is a positive number or an object, hence always truthy, so the test
  \<open>if (this.counterHandle)\<close> is the test for \<open>Some\<close>. \<open>isDestroyed\<close> is \<open>False\<close> while
  the optional field is unset.
\<close>

record Bot =
  status :: BotStatus
  uid :: nat
  type :: BotType
  currentOrder :: "nat option"
  counterHandle :: "nat option"
  isDestroyed :: bool

text \<open>
  The callbacks stored in \<open>messageQueue\<close>. The repository registers two kinds: the
  closure of the \<open>Controller\<close> constructor, and outside observers (the UI, a test
  spy) that read but never change the engine. An observer is modelled by what it can
  see: the event it is handed and the result of \<open>getOrderList\<close> at that moment, which
  it appends to the log \<open>observed\<close> under its own number.
\<close>

datatype task = ControllerTask | ObserverTask nat

text \<open>
  \<open>orderUid\<close> and \<open>botUid\<close> are the counters captured by the two \<open>getUid\<close> closures.
  \<open>timers\<close> is the table of active intervals: a handle is mapped to the bot and the
  order (\<open>this\<close> and \<open>nextOrder\<close>) its callback has captured. \<open>published\<close> is the
  sequence of events \<open>publish\<close> has been called with.
\<close>

record sys =
  orders :: "Order list"
  orderUid :: nat
  queueCache :: "nat list"
  queueVipOrder :: "nat list"
  queueNormalOrder :: "nat list"
  queueComplete :: "nat list"
  messageQueue :: "task list"
  bots :: "Bot list"
  botUid :: nat
  queue :: "nat list"
  timers :: "nat \<rightharpoonup> nat \<times> nat"
  nextHandle :: nat
  published :: "EventType list"
  observed :: "(nat \<times> EventType \<times> nat list) list"

section \<open>OrderManager, Bot and Controller\<close>

text \<open>
  Every method takes the state and returns the new one, with its result if it has
  one. The methods of \<open>Bot\<close> take the reference of the bot as \<open>this\<close>. The methods
  keep their names; \<open>processNextOrder\<close> and \<open>completeOrder\<close> are those of
  \<open>OrderManager\<close>, and the methods of \<open>Bot\<close> with the same names are
  \<open>Bot_processNextOrder\<close> and \<open>Bot_completeOrder\<close>. \<open>setInterval\<close> stands for the
  statement \<open>this.counterHandle = setInterval(\<dots>)\<close>: it starts the interval and
  stores its handle.
\<close>

definition getOrderList :: "sys \<Rightarrow> nat list" where
  "getOrderList s =
     queueCache s @ queueVipOrder s @ queueNormalOrder s @ queueComplete s"

definition hasIdleBot :: "sys \<Rightarrow> bool" where
  "hasIdleBot s = list_ex (\<lambda>b. Bot.status (bots s ! b) = IDLE) (queue s)"

text \<open>
  \<open>this.queueCache.shift() || this.queueVipOrder.shift() || this.queueNormalOrder.shift()\<close>:
  \<open>shift\<close> on an empty array gives undefined, an order object is always truthy.
\<close>

definition shift_next :: "sys \<Rightarrow> nat option \<times> sys" where
  "shift_next s =
     (case queueCache s of
        x # xs \<Rightarrow> (Some x, s\<lparr>queueCache := xs\<rparr>)
      | [] \<Rightarrow>
     (case queueVipOrder s of
        x # xs \<Rightarrow> (Some x, s\<lparr>queueVipOrder := xs\<rparr>)
      | [] \<Rightarrow>
     (case queueNormalOrder s of
        x # xs \<Rightarrow> (Some x, s\<lparr>queueNormalOrder := xs\<rparr>)
      | [] \<Rightarrow> (None, s))))"

definition updateOrder :: "nat \<Rightarrow> nat \<Rightarrow> sys \<Rightarrow> sys" where
  "updateOrder this order s =
     s\<lparr>bots := (bots s)[this := (bots s ! this)\<lparr>Bot.status := RUN, currentOrder := Some order\<rparr>]\<rparr>"

definition setInterval :: "nat \<Rightarrow> nat \<Rightarrow> sys \<Rightarrow> sys" where
  "setInterval this order s =
     s\<lparr>timers := (timers s)(nextHandle s \<mapsto> (this, order)),
       nextHandle := Suc (nextHandle s),
       bots := (bots s)[this := (bots s ! this)\<lparr>counterHandle := Some (nextHandle s)\<rparr>]\<rparr>"

definition clearTimeout :: "nat \<Rightarrow> sys \<Rightarrow> sys" where
  "clearTimeout h s = s\<lparr>timers := (timers s)(h := None)\<rparr>"

text \<open>
  \<open>publish\<close> calls every subscriber; the controller's subscriber calls
  \<open>Bot.processNextOrder\<close> on idle bots, which calls \<open>OrderManager.processNextOrder\<close>
  and \<open>publish\<close> again. The six functions are therefore defined together.
  \<open>forEach_task\<close> and \<open>forEach_bot\<close> are the two \<open>forEach\<close> loops, \<open>run_task\<close> is the
  call \<open>task(data)\<close>. The nested calls of \<open>publish\<close> carry \<open>ORDER_UPDATED\<close> and
  \<open>ORDER_COUNTER\<close>, on which the controller does nothing, which is why the recursion
  ends.
\<close>

function publish :: "EventType \<Rightarrow> sys \<Rightarrow> sys"
  and forEach_task :: "task list \<Rightarrow> EventType \<Rightarrow> sys \<Rightarrow> sys"
  and run_task :: "task \<Rightarrow> EventType \<Rightarrow> sys \<Rightarrow> sys"
  and forEach_bot :: "nat list \<Rightarrow> sys \<Rightarrow> sys"
  and Bot_processNextOrder :: "nat \<Rightarrow> sys \<Rightarrow> sys"
  and processNextOrder :: "sys \<Rightarrow> nat option \<times> sys"
where
  "publish data s =
     forEach_task (messageQueue s) data (s\<lparr>published := published s @ [data]\<rparr>)"
| "forEach_task [] data s = s"
| "forEach_task (t # ts) data s = forEach_task ts data (run_task t data s)"
| "run_task ControllerTask data s =
     (if data = ORDER_ADDED \<and> hasIdleBot s then forEach_bot (queue s) s else s)"
| "run_task (ObserverTask k) data s =
     s\<lparr>observed := observed s @ [(k, data, getOrderList s)]\<rparr>"
| "forEach_bot [] s = s"
| "forEach_bot (b # rest) s =
     forEach_bot rest
       (if Bot.status (bots s ! b) = IDLE then Bot_processNextOrder b s else s)"
| "Bot_processNextOrder this s =
     (case processNextOrder s of
        (None, s1) \<Rightarrow> s1\<lparr>bots := (bots s1)[this := (bots s1 ! this)\<lparr>Bot.status := IDLE\<rparr>]\<rparr>
      | (Some nextOrder, s1) \<Rightarrow>
          (let s2 = updateOrder this nextOrder s1;
               s3 = s2\<lparr>orders := (orders s2)[nextOrder := (orders s2 ! nextOrder)
                      \<lparr>counter := (if type (bots s2 ! this) = BOT_TYPE_VIP then 5 else 10)\<rparr>]\<rparr>;
               s4 = publish ORDER_COUNTER s3
           in setInterval this nextOrder s4))"
| "processNextOrder s =
     (case shift_next s of
        (None, s1) \<Rightarrow> (None, s1)
      | (Some order, s1) \<Rightarrow> (Some order, publish ORDER_UPDATED s1))"
  by pat_completeness auto
termination
  by (relation "measures
        [\<lambda>x. case x of
            Inl (Inl (data, s)) \<Rightarrow> if data = ORDER_ADDED then 11 else 5
          | Inl (Inr (Inl (ts, data, s))) \<Rightarrow> if data = ORDER_ADDED then 10 else 4
          | Inl (Inr (Inr (t, data, s))) \<Rightarrow> if data = ORDER_ADDED then 9 else 3
          | Inr (Inl (bs, s)) \<Rightarrow> 8
          | Inr (Inr (Inl (b, s))) \<Rightarrow> 7
          | Inr (Inr (Inr s)) \<Rightarrow> (6::nat),
         \<lambda>x. case x of
            Inl (Inr (Inl (ts, data, s))) \<Rightarrow> length ts
          | Inr (Inl (bs, s)) \<Rightarrow> length bs
          | _ \<Rightarrow> 0]")
     auto

declare publish.simps [simp del]
declare Bot_processNextOrder.simps [simp del]
declare processNextOrder.simps [simp del]

text \<open>The numbers of the observers among a list of subscribers, in order.\<close>

fun observers :: "task list \<Rightarrow> nat list" where
  "observers [] = []"
| "observers (ControllerTask # ts) = observers ts"
| "observers (ObserverTask k # ts) = k # observers ts"

text \<open>\<open>new Order(props)\<close>: the reference of the new object and the new state.\<close>

definition Order_new :: "OrderType \<Rightarrow> sys \<Rightarrow> nat \<times> sys" where
  "Order_new ty s =
     (length (orders s),
      s\<lparr>orders := orders s @
            [\<lparr>Order.status = PENDING, uid = orderUid s, orderType = ty, counter = 0\<rparr>],
        orderUid := Suc (orderUid s)\<rparr>)"

definition createNormalOrder :: "sys \<Rightarrow> nat \<times> sys" where
  "createNormalOrder s =
     (case Order_new ORDER_TYPE_NORMAL s of
        (order, s1) \<Rightarrow>
          (order, publish ORDER_ADDED (s1\<lparr>queueNormalOrder := queueNormalOrder s1 @ [order]\<rparr>)))"

definition createVipOrder :: "sys \<Rightarrow> nat \<times> sys" where
  "createVipOrder s =
     (case Order_new ORDER_TYPE_VIP s of
        (order, s1) \<Rightarrow>
          (order, publish ORDER_ADDED (s1\<lparr>queueVipOrder := queueVipOrder s1 @ [order]\<rparr>)))"

definition completeOrder :: "nat \<Rightarrow> sys \<Rightarrow> sys" where
  "completeOrder order s =
     publish ORDER_UPDATED
       (s\<lparr>orders := (orders s)[order := (orders s ! order)\<lparr>Order.status := COMPLETE\<rparr>],
          queueComplete := queueComplete s @ [order]\<rparr>)"

definition updateCache :: "nat \<Rightarrow> sys \<Rightarrow> sys" where
  "updateCache order s = publish ORDER_UPDATED (s\<lparr>queueCache := order # queueCache s\<rparr>)"

definition subscribe :: "task \<Rightarrow> sys \<Rightarrow> sys" where
  "subscribe callback s = s\<lparr>messageQueue := messageQueue s @ [callback]\<rparr>"

definition Bot_completeOrder :: "nat \<Rightarrow> sys \<Rightarrow> sys" where
  "Bot_completeOrder this s =
     (case currentOrder (bots s ! this) of
        None \<Rightarrow> s
      | Some order \<Rightarrow>
          (let s1 = completeOrder order s
           in s1\<lparr>bots := (bots s1)[this := (bots s1 ! this)\<lparr>currentOrder := None\<rparr>]\<rparr>))"

definition destroy :: "nat \<Rightarrow> sys \<Rightarrow> sys" where
  "destroy this s =
     (let s1 = (case counterHandle (bots s ! this) of
                  Some h \<Rightarrow> clearTimeout h s
                | None \<Rightarrow> s)
      in case currentOrder (bots s1 ! this) of
           None \<Rightarrow> s1
         | Some order \<Rightarrow>
             (let s2 = updateCache order s1
              in s2\<lparr>bots := (bots s2)[this := (bots s2 ! this)
                     \<lparr>currentOrder := None, Bot.status := IDLE, isDestroyed := True\<rparr>]\<rparr>))"

text \<open>
  The callback handed to \<open>setInterval\<close>, run once for the interval with handle \<open>h\<close>.
  An interval that has been cleared never runs its callback. The callback reads the
  captured \<open>nextOrder\<close> for the counter but \<open>this.counterHandle\<close> and
  \<open>this.currentOrder\<close> for what it clears and completes.
\<close>

definition tick :: "nat \<Rightarrow> sys \<Rightarrow> sys" where
  "tick h s =
     (case timers s h of
        None \<Rightarrow> s
      | Some (this, nextOrder) \<Rightarrow>
          (let s1 = s\<lparr>orders := (orders s)[nextOrder := (orders s ! nextOrder)
                      \<lparr>counter := counter (orders s ! nextOrder) - 1\<rparr>]\<rparr>;
               s2 = publish ORDER_COUNTER s1
           in if counter (orders s2 ! nextOrder) = 0
              then (let s3 = (case counterHandle (bots s2 ! this) of
                                Some h' \<Rightarrow> clearTimeout h' s2
                              | None \<Rightarrow> s2);
                        s4 = Bot_completeOrder this s3
                    in Bot_processNextOrder this s4)
              else s2))"

text \<open>\<open>new Bot(props)\<close>: the field initialisers, then the constructor body.\<close>

definition Bot_new :: "BotType \<Rightarrow> sys \<Rightarrow> nat \<times> sys" where
  "Bot_new ty s =
     (let this = length (bots s);
          s1 = s\<lparr>bots := bots s @
                  [\<lparr>Bot.status = IDLE, uid = botUid s, type = ty, currentOrder = None,
                    counterHandle = None, isDestroyed = False\<rparr>],
                botUid := Suc (botUid s)\<rparr>
      in (this, Bot_processNextOrder this s1))"

definition increase :: "BotType option \<Rightarrow> sys \<Rightarrow> nat \<times> sys" where
  "increase params s =
     (case Bot_new (case params of Some ty \<Rightarrow> ty | None \<Rightarrow> BOT_TYPE_NORMAL) s of
        (b, s1) \<Rightarrow> (b, s1\<lparr>queue := queue s1 @ [b]\<rparr>))"

definition decrease :: "sys \<Rightarrow> sys" where
  "decrease s =
     (if queue s = [] then s
      else destroy (last (queue s)) (s\<lparr>queue := butlast (queue s)\<rparr>))"

definition getBots :: "sys \<Rightarrow> nat list" where
  "getBots s = queue s"

text \<open>
  \<open>new OrderManager()\<close>. The two \<open>getUid\<close> closures are made when their modules are
  loaded, with a counter of 0, and no constructor resets them; timer handles are
  handed out by the process. A new order manager therefore starts with the three
  numbers as it finds them, the arguments \<open>ou\<close>, \<open>bu\<close> and \<open>nh\<close>. The objects of an
  earlier engine are not part of the state of a later one.
\<close>

definition OrderManager_new :: "nat \<Rightarrow> nat \<Rightarrow> nat \<Rightarrow> sys" where
  "OrderManager_new ou bu nh =
     \<lparr>orders = [], orderUid = ou, queueCache = [], queueVipOrder = [],
      queueNormalOrder = [], queueComplete = [], messageQueue = [], bots = [],
      botUid = bu, queue = [], timers = Map.empty, nextHandle = nh, published = [],
      observed = []\<rparr>"

definition Controller_new :: "sys \<Rightarrow> sys" where
  "Controller_new s = subscribe ControllerTask (s\<lparr>queue := []\<rparr>)"

text \<open>
  \<open>new OrderManager()\<close> followed by \<open>new Controller({ orderManager })\<close>, the way every
  caller in the repository sets the engine up. \<open>init\<close> is the first engine of a
  process, built when the modules have just been loaded. \<open>new_engine s\<close> is an engine
  built later in the same process, when the engine before it has reached the state
  \<open>s\<close>, as the \<open>beforeEach\<close> of the test files builds one for every test.
\<close>

definition engine :: "nat \<Rightarrow> nat \<Rightarrow> nat \<Rightarrow> sys" where
  "engine ou bu nh = Controller_new (OrderManager_new ou bu nh)"

definition init :: sys where
  "init = engine 0 0 1"

definition new_engine :: "sys \<Rightarrow> sys" where
  "new_engine s = engine (orderUid s) (botUid s) (nextHandle s)"

text \<open>
  What can happen to a running engine: the public operations, and the firing of an
  interval. Timers of different bots may fire in any order.
\<close>

datatype action =
    CreateNormalOrder
  | CreateVipOrder
  | Increase "BotType option"
  | Decrease
  | Tick nat
  | Subscribe nat

fun step :: "action \<Rightarrow> sys \<Rightarrow> sys" where
  "step CreateNormalOrder s = snd (createNormalOrder s)"
| "step CreateVipOrder s = snd (createVipOrder s)"
| "step (Increase params) s = snd (increase params s)"
| "step Decrease s = decrease s"
| "step (Tick h) s = tick h s"
| "step (Subscribe k) s = subscribe (ObserverTask k) s"

definition run :: "action list \<Rightarrow> sys \<Rightarrow> sys" where
  "run acts s = fold step acts s"

inductive reachable :: "sys \<Rightarrow> bool" where
  reachable_engine: "reachable (engine ou bu nh)"
| reachable_step: "reachable s \<Longrightarrow> reachable (step a s)"

section \<open>Consistency of the shared state\<close>

text \<open>
  The properties every operation keeps. \<open>L\<close> is the content of the four collections
  in the order of \<open>getOrderList\<close>, \<open>n\<close> the number of order objects, \<open>B\<close> the bots,
  \<open>T\<close> the active intervals and \<open>Q\<close> the controller's queue.
  \<^item> \<open>stored_ok\<close>: no order is stored twice, and every stored reference is an object;
  \<^item> \<open>held_ok\<close>: an order held by a bot is stored nowhere, and held by no other bot;
  \<^item> \<open>timers_ok\<close>: an active interval belongs to a running bot, is the one its
    \<open>counterHandle\<close> names, and has captured the order the bot holds;
  \<^item> \<open>queue_ok\<close>: the controller manages existing bots, each once.
\<close>

definition stored_ok :: "nat list \<Rightarrow> nat \<Rightarrow> bool" where
  "stored_ok L n \<longleftrightarrow> distinct L \<and> (\<forall>x\<in>set L. x < n)"

definition held_ok :: "nat list \<Rightarrow> nat \<Rightarrow> Bot list \<Rightarrow> bool" where
  "held_ok L n B \<longleftrightarrow>
     (\<forall>b x. b < length B \<longrightarrow> currentOrder (B ! b) = Some x \<longrightarrow>
        x \<notin> set L \<and> x < n \<and>
        (\<forall>b'. b' < length B \<longrightarrow> currentOrder (B ! b') = Some x \<longrightarrow> b' = b))"

definition timers_ok :: "Bot list \<Rightarrow> (nat \<rightharpoonup> nat \<times> nat) \<Rightarrow> bool" where
  "timers_ok B T \<longleftrightarrow>
     (\<forall>h b x. T h = Some (b, x) \<longrightarrow>
        b < length B \<and> counterHandle (B ! b) = Some h \<and>
        currentOrder (B ! b) = Some x \<and> Bot.status (B ! b) = RUN)"

definition queue_ok :: "Bot list \<Rightarrow> nat list \<Rightarrow> bool" where
  "queue_ok B Q \<longleftrightarrow> (\<forall>b\<in>set Q. b < length B) \<and> distinct Q"

definition timerless :: "nat \<Rightarrow> (nat \<rightharpoonup> nat \<times> nat) \<Rightarrow> bool" where
  "timerless b T \<longleftrightarrow> (\<forall>h x. T h \<noteq> Some (b, x))"

definition consistent :: "sys \<Rightarrow> bool" where
  "consistent s \<longleftrightarrow>
     stored_ok (getOrderList s) (length (orders s)) \<and>
     held_ok (getOrderList s) (length (orders s)) (bots s) \<and>
     timers_ok (bots s) (timers s) \<and>
     queue_ok (bots s) (queue s)"

text \<open>
  A sequence of \<open>createNormalOrder\<close> and \<open>createVipOrder\<close> calls, one per element of
  the list and of the kind it names: the orders returned, in the order of the calls, and
  the state after the last call.
\<close>

fun createOrders :: "OrderType list \<Rightarrow> sys \<Rightarrow> nat list \<times> sys" where
  "createOrders [] s = ([], s)"
| "createOrders (ty # tys) s =
     (case (case ty of
              ORDER_TYPE_NORMAL \<Rightarrow> createNormalOrder s
            | ORDER_TYPE_VIP \<Rightarrow> createVipOrder s) of
        (order, s1) \<Rightarrow>
          (case createOrders tys s1 of (rest, s2) \<Rightarrow> (order # rest, s2)))"

text \<open>What never changes in an order object: its uid and its kind, for every object.\<close>

definition ident :: "sys \<Rightarrow> (nat \<times> OrderType) list" where
  "ident s = map (\<lambda>x. (Order.uid x, orderType x)) (orders s)"

text \<open>
  Two more properties of the states between operations: an idle bot holds no order,
  and every active interval belongs to a bot the controller manages.
\<close>

definition idle_ok :: "Bot list \<Rightarrow> bool" where
  "idle_ok B \<longleftrightarrow>
     (\<forall>b. b < length B \<longrightarrow> Bot.status (B ! b) = IDLE \<longrightarrow> currentOrder (B ! b) = None)"

definition managed :: "(nat \<rightharpoonup> nat \<times> nat) \<Rightarrow> nat list \<Rightarrow> bool" where
  "managed T Q \<longleftrightarrow> (\<forall>h b x. T h = Some (b, x) \<longrightarrow> b \<in> set Q)"

text \<open>
  Nothing is going on: no interval is active and every managed bot is idle. Only the
  creation of an order or of a bot leads out of such a state.
\<close>

definition at_rest :: "sys \<Rightarrow> bool" where
  "at_rest s \<longleftrightarrow>
     idle_ok (bots s) \<and> (\<forall>h. timers s h = None) \<and>
     (\<forall>b\<in>set (queue s). b < length (bots s) \<and> Bot.status (bots s ! b) = IDLE)"

text \<open>The actions that create neither an order nor a bot.\<close>

fun creates_nothing :: "action \<Rightarrow> bool" where
  "creates_nothing CreateNormalOrder = False"
| "creates_nothing CreateVipOrder = False"
| "creates_nothing (Increase params) = False"
| "creates_nothing Decrease = True"
| "creates_nothing (Tick h) = True"
| "creates_nothing (Subscribe k) = True"

section \<open>Some runs of the engine\<close>

text \<open>One pending order, then one bot of the default type, which picks the order up.\<close>

definition one_order_one_bot :: sys where
  "one_order_one_bot = run [CreateNormalOrder, Increase None] init"

text \<open>Two bots added while nothing is pending: both are idle.\<close>

definition two_idle_bots :: sys where
  "two_idle_bots = run [Increase None, Increase None] init"

text \<open>
  A VIP order created between two normal ones, one bot that picks the VIP order up and
  is destroyed again: the VIP order is in \<open>queueCache\<close>, the normal ones in their queue.
\<close>

definition one_recovered :: sys where
  "one_recovered =
     run [CreateNormalOrder, CreateVipOrder, CreateNormalOrder, Increase None, Decrease] init"

text \<open>
  One order and one bot of the default type, and the ten ticks of the bot's interval
  after which the order is complete and the bot idle again.
\<close>

definition one_order_done :: sys where
  "one_order_done =
     run [CreateNormalOrder, Increase None, Tick 1, Tick 1, Tick 1, Tick 1, Tick 1,
          Tick 1, Tick 1, Tick 1, Tick 1, Tick 1] init"

text \<open>
  The engine built after an earlier engine of the same process has created two
  orders, as the second test of a test file finds it.
\<close>

definition second_engine :: sys where
  "second_engine = new_engine (run [CreateNormalOrder, CreateNormalOrder] init)"

text \<open>One bot added while nothing is pending.\<close>

definition one_idle_bot :: sys where
  "one_idle_bot = run [Increase None] init"

text \<open>One order, one bot, and nine of the ten ticks the bot needs.\<close>

definition one_order_last_tick :: sys where
  "one_order_last_tick =
     run [CreateNormalOrder, Increase None, Tick 1, Tick 1, Tick 1, Tick 1, Tick 1,
          Tick 1, Tick 1, Tick 1, Tick 1] init"

text \<open>
  A VIP bot and a normal bot, each added when one order was pending, and five seconds:
  the VIP bot has completed its order and is idle, the normal bot is half way through.
\<close>

definition vip_done_normal_running :: sys where
  "vip_done_normal_running =
     run [CreateNormalOrder, Increase (Some BOT_TYPE_VIP), CreateNormalOrder, Increase None,
          Tick 1, Tick 2, Tick 1, Tick 2, Tick 1, Tick 2, Tick 1, Tick 2, Tick 1, Tick 2] init"

text \<open>The same, and then the normal bot, the newest one, is destroyed.\<close>

definition running_bot_destroyed :: sys where
  "running_bot_destroyed = decrease vip_done_normal_running"

text \<open>
  One idle bot, and an observer (number 7) that subscribes after the controller, as
  the UI of the repository does.
\<close>

definition idle_bot_and_observer :: sys where
  "idle_bot_and_observer = run [Increase None, Subscribe 7] init"

text \<open>
  An observer (number 7) that subscribes to the order manager before the controller is
  constructed, and then one idle bot.
\<close>

definition observer_then_idle_bot :: sys where
  "observer_then_idle_bot =
     snd (increase None (Controller_new (subscribe (ObserverTask 7) (OrderManager_new 0 0 1))))"

text \<open>
  The state \<open>running_bot_destroyed\<close> two ticks later, with an observer (number 3):
  order 1 waits in \<open>queueCache\<close> and bot 0 is idle.
\<close>

definition recovered_and_observer :: sys where
  "recovered_and_observer = run [Tick 2, Subscribe 3, Tick 1] running_bot_destroyed"

text \<open>Two idle bots, nothing pending, and an observer (number 5).\<close>

definition two_idle_and_observer :: sys where
  "two_idle_and_observer = run [Increase None, Increase None, Subscribe 5] init"

text \<open>
  The orders that wait, in the order in which \<open>processNextOrder\<close> hands them out, and
  the managed bots that are idle, in the order of the controller's queue.
\<close>

definition pending :: "sys \<Rightarrow> nat list" where
  "pending s = queueCache s @ queueVipOrder s @ queueNormalOrder s"

definition idle_bots :: "sys \<Rightarrow> nat list" where
  "idle_bots s = filter (\<lambda>b. Bot.status (bots s ! b) = IDLE) (queue s)"

text \<open>The entries of a piece of the observers' log that record deliveries of one event.\<close>

definition deliveries :: "EventType \<Rightarrow> (nat \<times> EventType \<times> nat list) list \<Rightarrow> nat list" where
  "deliveries data ys = map fst (filter (\<lambda>e. fst (snd e) = data) ys)"

section \<open>Publishing anything but \<open>ORDER_ADDED\<close>\<close>

lemma getOrderList_observed [simp]:
  "getOrderList (s\<lparr>observed := x\<rparr>) = getOrderList s"
  by (simp add: getOrderList_def)

lemma getOrderList_published [simp]:
  "getOrderList (s\<lparr>published := x\<rparr>) = getOrderList s"
  by (simp add: getOrderList_def)

lemma getOrderList_bots [simp]:
  "getOrderList (s\<lparr>bots := x\<rparr>) = getOrderList s"
  by (simp add: getOrderList_def)

lemma getOrderList_orders [simp]:
  "getOrderList (s\<lparr>orders := y\<rparr>) = getOrderList s"
  by (simp add: getOrderList_def)

lemma getOrderList_timers [simp]:
  "getOrderList (s\<lparr>timers := z\<rparr>) = getOrderList s"
  by (simp add: getOrderList_def)

lemma getOrderList_nextHandle [simp]:
  "getOrderList (s\<lparr>nextHandle := z\<rparr>) = getOrderList s"
  by (simp add: getOrderList_def)

lemma getOrderList_queue [simp]:
  "getOrderList (s\<lparr>queue := z\<rparr>) = getOrderList s"
  by (simp add: getOrderList_def)

lemma getOrderList_misc [simp]:
  "getOrderList (s\<lparr>messageQueue := m\<rparr>) = getOrderList s"
  "getOrderList (s\<lparr>botUid := n\<rparr>) = getOrderList s"
  "getOrderList (s\<lparr>orderUid := n\<rparr>) = getOrderList s"
  by (simp_all add: getOrderList_def)

lemma forEach_task_quiet:
  "data \<noteq> ORDER_ADDED \<Longrightarrow>
   forEach_task ts data s =
     s\<lparr>observed := observed s @ map (\<lambda>k. (k, data, getOrderList s)) (observers ts)\<rparr>"
proof (induction ts arbitrary: s)
  case Nil
  then show ?case by simp
next
  case (Cons t ts)
  then show ?case by (cases t) simp_all
qed

lemma publish_quiet:
  "data \<noteq> ORDER_ADDED \<Longrightarrow>
   publish data s =
     s\<lparr>published := published s @ [data],
       observed := observed s @ map (\<lambda>k. (k, data, getOrderList s)) (observers (messageQueue s))\<rparr>"
  by (simp add: publish.simps forEach_task_quiet)

lemmas publish_updated = publish_quiet [of ORDER_UPDATED, simplified]
lemmas publish_counter = publish_quiet [of ORDER_COUNTER, simplified]

lemma shift_next_cases:
  obtains (none) "shift_next s = (None, s)"
      "queueCache s = []" "queueVipOrder s = []" "queueNormalOrder s = []"
  | (some) x s1 where "shift_next s = (Some x, s1)"
      "getOrderList s = x # getOrderList s1"
      "queueComplete s1 = queueComplete s" "orders s1 = orders s" "bots s1 = bots s"
      "timers s1 = timers s" "queue s1 = queue s" "messageQueue s1 = messageQueue s"
      "nextHandle s1 = nextHandle s" "published s1 = published s"
      "observed s1 = observed s" "orderUid s1 = orderUid s" "botUid s1 = botUid s"
proof (cases "queueCache s")
  case c: (Cons x xs)
  show ?thesis
    by (rule some [of x "s\<lparr>queueCache := xs\<rparr>"]) (simp_all add: shift_next_def c getOrderList_def)
next
  case c: Nil
  show ?thesis
  proof (cases "queueVipOrder s")
    case v: (Cons x xs)
    show ?thesis
      by (rule some [of x "s\<lparr>queueVipOrder := xs\<rparr>"])
         (simp_all add: shift_next_def c v getOrderList_def)
  next
    case v: Nil
    show ?thesis
    proof (cases "queueNormalOrder s")
      case n: (Cons x xs)
      show ?thesis
        by (rule some [of x "s\<lparr>queueNormalOrder := xs\<rparr>"])
           (simp_all add: shift_next_def c v n getOrderList_def)
    next
      case n: Nil
      show ?thesis
        by (rule none) (simp_all add: shift_next_def c v n)
    qed
  qed
qed

lemma Bot_processNextOrder_none:
  "shift_next s = (None, s1) \<Longrightarrow>
   Bot_processNextOrder b s = s1\<lparr>bots := (bots s1)[b := (bots s1 ! b)\<lparr>Bot.status := IDLE\<rparr>]\<rparr>"
  by (simp add: Bot_processNextOrder.simps processNextOrder.simps)

lemma Bot_processNextOrder_some:
  assumes "shift_next s = (Some x, s1)" and "b < length (bots s1)"
  shows "Bot_processNextOrder b s =
     s1\<lparr>bots := (bots s1)[b := (bots s1 ! b)
            \<lparr>Bot.status := RUN, currentOrder := Some x, counterHandle := Some (nextHandle s1)\<rparr>],
        orders := (orders s1)[x := (orders s1 ! x)
            \<lparr>counter := (if type (bots s1 ! b) = BOT_TYPE_VIP then 5 else 10)\<rparr>],
        timers := (timers s1)(nextHandle s1 \<mapsto> (b, x)),
        nextHandle := Suc (nextHandle s1),
        published := published s1 @ [ORDER_UPDATED, ORDER_COUNTER],
        observed := observed s1 @
          map (\<lambda>k. (k, ORDER_UPDATED, getOrderList s1)) (observers (messageQueue s1)) @
          map (\<lambda>k. (k, ORDER_COUNTER, getOrderList s1)) (observers (messageQueue s1))\<rparr>"
  using assms
  by (simp add: Bot_processNextOrder.simps processNextOrder.simps publish_updated
      publish_counter updateOrder_def setInterval_def Let_def)

section \<open>The consistency properties under single updates\<close>

lemma timers_ok_idle_timerless:
  "timers_ok B T \<Longrightarrow> Bot.status (B ! b) = IDLE \<Longrightarrow> timerless b T"
  by (auto simp: timers_ok_def timerless_def)

lemma timers_ok_fresh_timerless:
  "timers_ok B T \<Longrightarrow> length B \<le> b \<Longrightarrow> timerless b T"
  by (fastforce simp: timers_ok_def timerless_def)

lemma timers_ok_clear:
  "timers_ok B T \<Longrightarrow> timers_ok B (T(h := None))"
  by (simp add: timers_ok_def)

lemma timers_ok_clear_timerless:
  "timers_ok B T \<Longrightarrow> counterHandle (B ! b) = Some h \<Longrightarrow> timerless b (T(h := None))"
  unfolding timers_ok_def timerless_def by auto

lemma timers_ok_other:
  assumes "timers_ok B T" and "timerless b T"
  shows "timers_ok (B[b := v]) T"
  unfolding timers_ok_def
proof (intro allI impI)
  fix h b' x assume t: "T h = Some (b', x)"
  with assms(2) have ne: "b' \<noteq> b" by (auto simp: timerless_def)
  from assms(1) t have "b' < length B \<and> counterHandle (B ! b') = Some h \<and>
        currentOrder (B ! b') = Some x \<and> Bot.status (B ! b') = RUN"
    unfolding timers_ok_def by blast
  with ne show "b' < length (B[b := v]) \<and> counterHandle (B[b := v] ! b') = Some h \<and>
        currentOrder (B[b := v] ! b') = Some x \<and> Bot.status (B[b := v] ! b') = RUN"
    by simp
qed

lemma timers_ok_set:
  assumes "timers_ok B T" and "timerless b T" and "b < length B"
    and "counterHandle v = Some h" and "currentOrder v = Some x" and "Bot.status v = RUN"
  shows "timers_ok (B[b := v]) (T(h \<mapsto> (b, x)))"
  unfolding timers_ok_def
proof (intro allI impI)
  fix h' b' x' assume t: "(T(h \<mapsto> (b, x))) h' = Some (b', x')"
  show "b' < length (B[b := v]) \<and> counterHandle (B[b := v] ! b') = Some h' \<and>
        currentOrder (B[b := v] ! b') = Some x' \<and> Bot.status (B[b := v] ! b') = RUN"
  proof (cases "h' = h")
    case True
    with t assms show ?thesis by simp
  next
    case False
    with t have t': "T h' = Some (b', x')" by simp
    with timers_ok_other [OF assms(1,2), of v] show ?thesis
      unfolding timers_ok_def by blast
  qed
qed

lemma timers_ok_append:
  assumes "timers_ok B T"
  shows "timers_ok (B @ [v]) T"
  unfolding timers_ok_def
proof (intro allI impI)
  fix h b x assume "T h = Some (b, x)"
  with assms have "b < length B \<and> counterHandle (B ! b) = Some h \<and>
        currentOrder (B ! b) = Some x \<and> Bot.status (B ! b) = RUN"
    unfolding timers_ok_def by blast
  then show "b < length (B @ [v]) \<and> counterHandle ((B @ [v]) ! b) = Some h \<and>
        currentOrder ((B @ [v]) ! b) = Some x \<and> Bot.status ((B @ [v]) ! b) = RUN"
    by (simp add: nth_append)
qed

lemma held_ok_drop:
  assumes "held_ok L n B" and "currentOrder v = None"
    and "\<And>x. b < length B \<Longrightarrow> currentOrder (B ! b) = Some x \<Longrightarrow> set L' \<subseteq> insert x (set L)"
    and "b < length B" and "currentOrder (B ! b) = None \<Longrightarrow> set L' \<subseteq> set L"
  shows "held_ok L' n (B[b := v])"
  unfolding held_ok_def
proof (intro allI impI)
  fix c x assume c: "c < length (B[b := v])" and h: "currentOrder (B[b := v] ! c) = Some x"
  from c h assms(2) have cb: "c \<noteq> b" by (auto simp: nth_list_update split: if_splits)
  with c h have hc: "c < length B" "currentOrder (B ! c) = Some x" by simp_all
  from assms(1) hc have old: "x \<notin> set L" "x < n"
    "\<And>b'. b' < length B \<Longrightarrow> currentOrder (B ! b') = Some x \<Longrightarrow> b' = c"
    unfolding held_ok_def by blast+
  have "x \<notin> set L'"
  proof (cases "currentOrder (B ! b)")
    case None
    with assms(5) old(1) show ?thesis by blast
  next
    case (Some y)
    from old(3) [OF assms(4)] Some cb have "y \<noteq> x" by auto
    with assms(3) [OF assms(4) Some] old(1) show ?thesis by blast
  qed
  moreover have "\<forall>b'. b' < length (B[b := v]) \<longrightarrow> currentOrder (B[b := v] ! b') = Some x \<longrightarrow> b' = c"
    using old(3) assms(2,4) by (auto simp: nth_list_update split: if_splits)
  ultimately show "x \<notin> set L' \<and> x < n \<and>
      (\<forall>b'. b' < length (B[b := v]) \<longrightarrow> currentOrder (B[b := v] ! b') = Some x \<longrightarrow> b' = c)"
    using old(2) by blast
qed

lemma held_ok_take:
  assumes "held_ok (x # L) n B" and "stored_ok (x # L) n" and "currentOrder v = Some x"
    and "b < length B"
  shows "held_ok L n (B[b := v])"
  unfolding held_ok_def
proof (intro allI impI)
  fix c y assume c: "c < length (B[b := v])" and h: "currentOrder (B[b := v] ! c) = Some y"
  have nox: "\<And>b'. b' < length B \<Longrightarrow> currentOrder (B ! b') \<noteq> Some x"
    using assms(1) unfolding held_ok_def by auto
  show "y \<notin> set L \<and> y < n \<and>
      (\<forall>b'. b' < length (B[b := v]) \<longrightarrow> currentOrder (B[b := v] ! b') = Some y \<longrightarrow> b' = c)"
  proof (cases "c = b")
    case True
    with c h assms(3) have yx: "y = x" by simp
    from assms(2) have "x \<notin> set L" "x < n" by (auto simp: stored_ok_def)
    moreover have "\<forall>b'. b' < length (B[b := v]) \<longrightarrow> currentOrder (B[b := v] ! b') = Some x \<longrightarrow> b' = b"
      using nox assms(4) by (auto simp: nth_list_update split: if_splits)
    ultimately show ?thesis using yx True by blast
  next
    case False
    with c h have hc: "c < length B" "currentOrder (B ! c) = Some y" by simp_all
    from assms(1) hc have old: "y \<notin> set (x # L)" "y < n"
      "\<And>b'. b' < length B \<Longrightarrow> currentOrder (B ! b') = Some y \<Longrightarrow> b' = c"
      unfolding held_ok_def by blast+
    from nox hc have "y \<noteq> x" by auto
    with assms(3,4) old(3) have "\<forall>b'. b' < length (B[b := v]) \<longrightarrow> currentOrder (B[b := v] ! b') = Some y \<longrightarrow> b' = c"
      by (auto simp: nth_list_update split: if_splits)
    with old show ?thesis by simp
  qed
qed

lemma held_ok_append:
  assumes "held_ok L n B" and "currentOrder v = None"
  shows "held_ok L n (B @ [v])"
proof -
  have cur: "\<And>c x. c < length (B @ [v]) \<Longrightarrow> currentOrder ((B @ [v]) ! c) = Some x \<Longrightarrow>
      c < length B \<and> currentOrder (B ! c) = Some x"
    using assms(2) by (simp add: nth_append split: if_splits)
  show ?thesis
    unfolding held_ok_def
  proof (intro allI impI)
    fix c x assume c: "c < length (B @ [v])" "currentOrder ((B @ [v]) ! c) = Some x"
    from cur [OF c] assms(1) have old: "x \<notin> set L" "x < n"
      "\<And>b'. b' < length B \<Longrightarrow> currentOrder (B ! b') = Some x \<Longrightarrow> b' = c"
      unfolding held_ok_def by blast+
    have "\<forall>b'. b' < length (B @ [v]) \<longrightarrow> currentOrder ((B @ [v]) ! b') = Some x \<longrightarrow> b' = c"
      using cur old(3) by blast
    with old show "x \<notin> set L \<and> x < n \<and>
       (\<forall>b'. b' < length (B @ [v]) \<longrightarrow> currentOrder ((B @ [v]) ! b') = Some x \<longrightarrow> b' = c)"
      by blast
  qed
qed

lemma held_ok_new_order:
  assumes "held_ok L n B" and "set L' = insert n (set L)"
  shows "held_ok L' (Suc n) B"
  unfolding held_ok_def
proof (intro allI impI)
  fix c x assume c: "c < length B" "currentOrder (B ! c) = Some x"
  with assms(1) have old: "x \<notin> set L" "x < n"
      "\<forall>b'. b' < length B \<longrightarrow> currentOrder (B ! b') = Some x \<longrightarrow> b' = c"
    unfolding held_ok_def by blast+
  from old(1,2) assms(2) have "x \<notin> set L'" by simp
  with old show "x \<notin> set L' \<and> x < Suc n \<and>
       (\<forall>b'. b' < length B \<longrightarrow> currentOrder (B ! b') = Some x \<longrightarrow> b' = c)"
    by simp
qed

lemma held_ok_same:
  assumes "held_ok L n B" and "currentOrder v = currentOrder (B ! b)" and "b < length B"
  shows "held_ok L n (B[b := v])"
proof -
  have cur: "\<And>c. c < length B \<Longrightarrow> currentOrder (B[b := v] ! c) = currentOrder (B ! c)"
    using assms(2,3) by (simp add: nth_list_update)
  show ?thesis
    unfolding held_ok_def
  proof (intro allI impI)
    fix c x assume c: "c < length (B[b := v])" "currentOrder (B[b := v] ! c) = Some x"
    then have c': "c < length B" "currentOrder (B ! c) = Some x" by (simp_all add: cur)
    with assms(1) have old: "x \<notin> set L" "x < n"
      "\<And>b'. b' < length B \<Longrightarrow> currentOrder (B ! b') = Some x \<Longrightarrow> b' = c"
      unfolding held_ok_def by blast+
    have "\<forall>b'. b' < length (B[b := v]) \<longrightarrow> currentOrder (B[b := v] ! b') = Some x \<longrightarrow> b' = c"
      using old(3) by (simp add: cur)
    with old show "x \<notin> set L \<and> x < n \<and>
       (\<forall>b'. b' < length (B[b := v]) \<longrightarrow> currentOrder (B[b := v] ! b') = Some x \<longrightarrow> b' = c)"
      by blast
  qed
qed

lemma queue_ok_update: "queue_ok B Q \<Longrightarrow> queue_ok (B[b := v]) Q"
  by (simp add: queue_ok_def)

lemma queue_ok_append:
  "queue_ok B Q \<Longrightarrow> queue_ok (B @ [v]) Q"
  by (auto simp: queue_ok_def)

lemma queue_ok_push:
  "queue_ok B Q \<Longrightarrow> queue_ok (B @ [v]) (Q @ [length B])"
  by (auto simp: queue_ok_def)

lemma queue_ok_butlast:
  "queue_ok B Q \<Longrightarrow> queue_ok B (butlast Q)"
  by (auto simp: queue_ok_def distinct_butlast dest: in_set_butlastD)

lemma queue_ok_last:
  "queue_ok B Q \<Longrightarrow> Q \<noteq> [] \<Longrightarrow> last Q < length B"
  by (simp add: queue_ok_def)

lemma stored_ok_tail: "stored_ok (x # L) n \<Longrightarrow> stored_ok L n"
  by (simp add: stored_ok_def)

lemma stored_ok_back:
  "stored_ok L n \<Longrightarrow> held_ok L n B \<Longrightarrow> b < length B \<Longrightarrow> currentOrder (B ! b) = Some x \<Longrightarrow>
   set L' = insert x (set L) \<Longrightarrow> distinct L' \<Longrightarrow> stored_ok L' n"
  by (auto simp: stored_ok_def held_ok_def)

lemma stored_ok_new:
  "stored_ok L n \<Longrightarrow> set L' = insert n (set L) \<Longrightarrow> distinct L' \<Longrightarrow> stored_ok L' (Suc n)"
  by (auto simp: stored_ok_def)

section \<open>Every operation keeps the state consistent\<close>

lemma consistent_irrelevant [simp]:
  "consistent (s\<lparr>published := p\<rparr>) = consistent s"
  "consistent (s\<lparr>observed := ob\<rparr>) = consistent s"
  "consistent (s\<lparr>messageQueue := m\<rparr>) = consistent s"
  "consistent (s\<lparr>nextHandle := nh\<rparr>) = consistent s"
  "consistent (s\<lparr>orderUid := u\<rparr>) = consistent s"
  "consistent (s\<lparr>botUid := u\<rparr>) = consistent s"
  by (simp_all add: consistent_def)

lemma consistent_publish_quiet:
  "data \<noteq> ORDER_ADDED \<Longrightarrow> consistent (publish data s) = consistent s"
  by (simp add: publish_quiet)

lemma consistent_counter:
  "consistent (s\<lparr>orders := (orders s)[x := v]\<rparr>) = consistent s"
  by (simp add: consistent_def)

lemma Bot_processNextOrder_length:
  "length (bots (Bot_processNextOrder b s)) = length (bots s)"
  "queue (Bot_processNextOrder b s) = queue s"
  by (cases s rule: shift_next_cases;
      simp add: Bot_processNextOrder.simps processNextOrder.simps publish_updated
        publish_counter updateOrder_def setInterval_def Let_def)+

lemma consistent_Bot_processNextOrder:
  assumes "consistent s" and "b < length (bots s)" and "timerless b (timers s)"
  shows "consistent (Bot_processNextOrder b s)"
proof (cases s rule: shift_next_cases)
  case none
  from assms show ?thesis
    by (simp add: Bot_processNextOrder_none [OF none(1)] consistent_def
        held_ok_same timers_ok_other queue_ok_update)
next
  case (some x s1)
  let ?v = "(bots s ! b)\<lparr>Bot.status := RUN, currentOrder := Some x,
              counterHandle := Some (nextHandle s)\<rparr>"
  from assms(1) some(2) have st: "stored_ok (x # getOrderList s1) (length (orders s))"
    and he: "held_ok (x # getOrderList s1) (length (orders s)) (bots s)"
    and ti: "timers_ok (bots s) (timers s)" and qu: "queue_ok (bots s) (queue s)"
    by (simp_all add: consistent_def)
  have "stored_ok (getOrderList s1) (length (orders s))"
    using st by (rule stored_ok_tail)
  moreover have "held_ok (getOrderList s1) (length (orders s)) ((bots s)[b := ?v])"
    using he st _ assms(2) by (rule held_ok_take) simp
  moreover have "timers_ok ((bots s)[b := ?v]) ((timers s)(nextHandle s \<mapsto> (b, x)))"
    using ti assms(3,2) by (rule timers_ok_set) simp_all
  moreover have "queue_ok ((bots s)[b := ?v]) (queue s)"
    using qu by (rule queue_ok_update)
  ultimately show ?thesis
    using assms(2) some
    by (simp add: Bot_processNextOrder_some [OF some(1)] consistent_def)
qed


lemma consistent_forEach_bot:
  "consistent s \<Longrightarrow> \<forall>b\<in>set bs. b < length (bots s) \<Longrightarrow>
   consistent (forEach_bot bs s) \<and>
   length (bots (forEach_bot bs s)) = length (bots s) \<and>
   queue (forEach_bot bs s) = queue s"
proof (induction bs arbitrary: s)
  case Nil
  then show ?case by simp
next
  case (Cons b bs)
  let ?s = "if Bot.status (bots s ! b) = IDLE then Bot_processNextOrder b s else s"
  from Cons.prems have b: "b < length (bots s)" by simp
  have len: "length (bots ?s) = length (bots s)" "queue ?s = queue s"
    by (simp_all add: Bot_processNextOrder_length)
  have "consistent ?s"
  proof (cases "Bot.status (bots s ! b) = IDLE")
    case True
    from Cons.prems(1) have "timers_ok (bots s) (timers s)" by (simp add: consistent_def)
    then have "timerless b (timers s)" using True by (rule timers_ok_idle_timerless)
    with Cons.prems(1) b True show ?thesis by (simp add: consistent_Bot_processNextOrder)
  next
    case False
    with Cons.prems(1) show ?thesis by simp
  qed
  moreover from Cons.prems(2) len have "\<forall>b\<in>set bs. b < length (bots ?s)" by simp
  ultimately have "consistent (forEach_bot bs ?s) \<and>
      length (bots (forEach_bot bs ?s)) = length (bots ?s) \<and>
      queue (forEach_bot bs ?s) = queue ?s"
    by (rule Cons.IH)
  with len show ?case by simp
qed

lemma consistent_run_task:
  assumes "consistent s"
  shows "consistent (run_task t data s) \<and>
     length (bots (run_task t data s)) = length (bots s) \<and>
     queue (run_task t data s) = queue s"
proof (cases t)
  case ControllerTask
  from assms have "\<forall>b\<in>set (queue s). b < length (bots s)"
    by (simp add: consistent_def queue_ok_def)
  with assms consistent_forEach_bot [of s "queue s"] ControllerTask show ?thesis by simp
next
  case (ObserverTask k)
  with assms show ?thesis by simp
qed

lemma consistent_forEach_task:
  "consistent s \<Longrightarrow>
   consistent (forEach_task ts data s) \<and>
   length (bots (forEach_task ts data s)) = length (bots s) \<and>
   queue (forEach_task ts data s) = queue s"
proof (induction ts arbitrary: s)
  case Nil
  then show ?case by simp
next
  case (Cons t ts)
  from consistent_run_task [OF Cons.prems, of t data]
  have 1: "consistent (run_task t data s)"
    and 2: "length (bots (run_task t data s)) = length (bots s)"
    and 3: "queue (run_task t data s) = queue s" by simp_all
  from Cons.IH [OF 1] 2 3 show ?case by simp
qed

lemma consistent_publish:
  "consistent s \<Longrightarrow>
   consistent (publish data s) \<and>
   length (bots (publish data s)) = length (bots s) \<and>
   queue (publish data s) = queue s"
  using consistent_forEach_task [of "s\<lparr>published := published s @ [data]\<rparr>" "messageQueue s" data]
  by (simp add: publish.simps)


lemma consistent_createNormalOrder:
  assumes "consistent s"
  shows "consistent (snd (createNormalOrder s))"
proof -
  let ?n = "length (orders s)"
  let ?s2 = "s\<lparr>orders := orders s @
      [\<lparr>Order.status = PENDING, uid = orderUid s, orderType = ORDER_TYPE_NORMAL, counter = 0\<rparr>],
      orderUid := Suc (orderUid s), queueNormalOrder := queueNormalOrder s @ [?n]\<rparr>"
  from assms have st: "stored_ok (getOrderList s) ?n"
    and he: "held_ok (getOrderList s) ?n (bots s)" by (simp_all add: consistent_def)
  have set: "set (getOrderList ?s2) = insert ?n (set (getOrderList s))"
    by (auto simp: getOrderList_def)
  from st have "?n \<notin> set (getOrderList s)" by (auto simp: stored_ok_def)
  with st have dist: "distinct (getOrderList ?s2)"
    by (auto simp: getOrderList_def stored_ok_def)
  have "stored_ok (getOrderList ?s2) (Suc ?n)" using st set dist by (rule stored_ok_new)
  moreover have "held_ok (getOrderList ?s2) (Suc ?n) (bots s)" using he set by (rule held_ok_new_order)
  ultimately have "consistent ?s2" using assms by (simp add: consistent_def)
  then have "consistent (publish ORDER_ADDED ?s2)" by (simp add: consistent_publish)
  then show ?thesis by (simp add: createNormalOrder_def Order_new_def)
qed

lemma consistent_createVipOrder:
  assumes "consistent s"
  shows "consistent (snd (createVipOrder s))"
proof -
  let ?n = "length (orders s)"
  let ?s2 = "s\<lparr>orders := orders s @
      [\<lparr>Order.status = PENDING, uid = orderUid s, orderType = ORDER_TYPE_VIP, counter = 0\<rparr>],
      orderUid := Suc (orderUid s), queueVipOrder := queueVipOrder s @ [?n]\<rparr>"
  from assms have st: "stored_ok (getOrderList s) ?n"
    and he: "held_ok (getOrderList s) ?n (bots s)" by (simp_all add: consistent_def)
  have set: "set (getOrderList ?s2) = insert ?n (set (getOrderList s))"
    by (auto simp: getOrderList_def)
  from st have "?n \<notin> set (getOrderList s)" by (auto simp: stored_ok_def)
  with st have dist: "distinct (getOrderList ?s2)"
    by (auto simp: getOrderList_def stored_ok_def)
  have "stored_ok (getOrderList ?s2) (Suc ?n)" using st set dist by (rule stored_ok_new)
  moreover have "held_ok (getOrderList ?s2) (Suc ?n) (bots s)" using he set by (rule held_ok_new_order)
  ultimately have "consistent ?s2" using assms by (simp add: consistent_def)
  then have "consistent (publish ORDER_ADDED ?s2)" by (simp add: consistent_publish)
  then show ?thesis by (simp add: createVipOrder_def Order_new_def)
qed

lemma consistent_increase:
  assumes "consistent s"
  shows "consistent (snd (increase params s))"
proof -
  let ?b = "length (bots s)"
  obtain ty where ty: "(case params of Some ty \<Rightarrow> ty | None \<Rightarrow> BOT_TYPE_NORMAL) = ty" by simp
  let ?v = "\<lparr>Bot.status = IDLE, uid = botUid s, type = ty, currentOrder = None,
             counterHandle = None, isDestroyed = False\<rparr>"
  let ?s1 = "s\<lparr>bots := bots s @ [?v], botUid := Suc (botUid s)\<rparr>"
  let ?s2 = "Bot_processNextOrder ?b ?s1"
  from assms have he: "held_ok (getOrderList s) (length (orders s)) (bots s)"
    and ti: "timers_ok (bots s) (timers s)" and qu: "queue_ok (bots s) (queue s)"
    by (simp_all add: consistent_def)
  have "consistent ?s1"
    using assms by (simp add: consistent_def held_ok_append timers_ok_append queue_ok_append)
  moreover have "timerless ?b (timers ?s1)"
    using timers_ok_fresh_timerless [OF ti, of ?b] by simp
  ultimately have c2: "consistent ?s2" by (simp add: consistent_Bot_processNextOrder)
  have len: "length (bots ?s2) = Suc ?b" "queue ?s2 = queue s"
    by (simp_all add: Bot_processNextOrder_length)
  from qu have "queue_ok (bots ?s2) (queue s @ [?b])"
    by (auto simp: queue_ok_def len)
  with c2 len have "consistent (?s2\<lparr>queue := queue ?s2 @ [?b]\<rparr>)"
    by (simp add: consistent_def)
  then show ?thesis by (simp add: increase_def Bot_new_def ty Let_def)
qed


lemma timers_ok_unset_timerless:
  "timers_ok B T \<Longrightarrow> counterHandle (B ! b) = None \<Longrightarrow> timerless b T"
  by (auto simp: timers_ok_def timerless_def)

lemma consistent_clearTimeout:
  "consistent s \<Longrightarrow> consistent (clearTimeout h s)"
  by (simp add: consistent_def clearTimeout_def timers_ok_clear)

lemma consistent_stop:
  assumes "consistent s"
  shows "consistent (case counterHandle (bots s ! b) of Some h \<Rightarrow> clearTimeout h s | None \<Rightarrow> s)
    \<and> timerless b (timers (case counterHandle (bots s ! b) of Some h \<Rightarrow> clearTimeout h s | None \<Rightarrow> s))
    \<and> bots (case counterHandle (bots s ! b) of Some h \<Rightarrow> clearTimeout h s | None \<Rightarrow> s) = bots s
    \<and> queue (case counterHandle (bots s ! b) of Some h \<Rightarrow> clearTimeout h s | None \<Rightarrow> s) = queue s"
proof -
  from assms have ti: "timers_ok (bots s) (timers s)" by (simp add: consistent_def)
  show ?thesis
  proof (cases "counterHandle (bots s ! b)")
    case None
    with assms timers_ok_unset_timerless [OF ti None] show ?thesis by simp
  next
    case (Some h)
    with assms timers_ok_clear_timerless [OF ti Some] show ?thesis
      by (simp add: consistent_clearTimeout) (simp add: clearTimeout_def)
  qed
qed

lemma consistent_Bot_completeOrder:
  assumes "consistent s" and "b < length (bots s)" and "timerless b (timers s)"
  shows "consistent (Bot_completeOrder b s) \<and>
     timerless b (timers (Bot_completeOrder b s)) \<and>
     length (bots (Bot_completeOrder b s)) = length (bots s)"
proof (cases "currentOrder (bots s ! b)")
  case None
  with assms show ?thesis by (simp add: Bot_completeOrder_def)
next
  case (Some x)
  let ?L = "getOrderList s" and ?n = "length (orders s)"
  let ?L' = "queueCache s @ queueVipOrder s @ queueNormalOrder s @ queueComplete s @ [x]"
  let ?v = "(bots s ! b)\<lparr>currentOrder := None\<rparr>"
  from assms(1) have st: "stored_ok ?L ?n" and he: "held_ok ?L ?n (bots s)"
    and ti: "timers_ok (bots s) (timers s)" and qu: "queue_ok (bots s) (queue s)"
    by (simp_all add: consistent_def)
  have set: "set ?L' = insert x (set ?L)" by (auto simp: getOrderList_def)
  from he assms(2) Some have "x \<notin> set ?L" unfolding held_ok_def by blast
  with st have dist: "distinct ?L'" by (auto simp: stored_ok_def getOrderList_def)
  have "stored_ok ?L' ?n" using st he assms(2) Some set dist by (rule stored_ok_back)
  moreover have "held_ok ?L' ?n ((bots s)[b := ?v])"
    using he _ _ assms(2) by (rule held_ok_drop) (auto simp: Some getOrderList_def)
  moreover have "timers_ok ((bots s)[b := ?v]) (timers s)"
    using ti assms(3) by (rule timers_ok_other)
  moreover have "queue_ok ((bots s)[b := ?v]) (queue s)" using qu by (rule queue_ok_update)
  ultimately show ?thesis
    using assms(3)
    by (simp add: Bot_completeOrder_def Some completeOrder_def publish_updated Let_def
        consistent_def getOrderList_def)
qed

lemma consistent_destroy:
  assumes "consistent s" and "b < length (bots s)"
  shows "consistent (destroy b s)"
proof -
  let ?s1 = "case counterHandle (bots s ! b) of Some h \<Rightarrow> clearTimeout h s | None \<Rightarrow> s"
  from consistent_stop [OF assms(1), of b]
  have c1: "consistent ?s1" and tl: "timerless b (timers ?s1)" and bs: "bots ?s1 = bots s"
    by simp_all
  show ?thesis
  proof (cases "currentOrder (bots s ! b)")
    case None
    with c1 bs show ?thesis by (simp add: destroy_def Let_def)
  next
    case (Some x)
    let ?L = "getOrderList ?s1" and ?n = "length (orders ?s1)"
    let ?v = "(bots ?s1 ! b)\<lparr>currentOrder := None, Bot.status := IDLE, isDestroyed := True\<rparr>"
    from Some bs have cur: "currentOrder (bots ?s1 ! b) = Some x" by simp
    from assms(2) bs have b: "b < length (bots ?s1)" by simp
    from c1 have st: "stored_ok ?L ?n" and he: "held_ok ?L ?n (bots ?s1)"
      and ti: "timers_ok (bots ?s1) (timers ?s1)" and qu: "queue_ok (bots ?s1) (queue ?s1)"
      by (simp_all add: consistent_def)
    from he b cur have "x \<notin> set ?L" unfolding held_ok_def by blast
    with st have dist: "distinct (x # ?L)" by (simp add: stored_ok_def)
    have "stored_ok (x # ?L) ?n" using st he b cur _ dist by (rule stored_ok_back) simp
    moreover have "held_ok (x # ?L) ?n ((bots ?s1)[b := ?v])"
      using he _ _ b by (rule held_ok_drop) (auto simp: cur)
    moreover have "timers_ok ((bots ?s1)[b := ?v]) (timers ?s1)"
      using ti tl by (rule timers_ok_other)
    moreover have "queue_ok ((bots ?s1)[b := ?v]) (queue ?s1)" using qu by (rule queue_ok_update)
    moreover have "getOrderList (?s1\<lparr>queueCache := x # queueCache ?s1\<rparr>) = x # ?L"
      by (simp add: getOrderList_def)
    ultimately show ?thesis
      using cur by (simp add: destroy_def Let_def updateCache_def publish_updated consistent_def)
  qed
qed

lemma consistent_decrease:
  assumes "consistent s"
  shows "consistent (decrease s)"
proof (cases "queue s = []")
  case True
  with assms show ?thesis by (simp add: decrease_def)
next
  case False
  from assms have qu: "queue_ok (bots s) (queue s)" by (simp add: consistent_def)
  from assms queue_ok_butlast [OF qu] have "consistent (s\<lparr>queue := butlast (queue s)\<rparr>)"
    by (simp add: consistent_def)
  moreover from queue_ok_last [OF qu False]
  have "last (queue s) < length (bots (s\<lparr>queue := butlast (queue s)\<rparr>))" by simp
  ultimately have "consistent (destroy (last (queue s)) (s\<lparr>queue := butlast (queue s)\<rparr>))"
    by (rule consistent_destroy)
  with False show ?thesis by (simp add: decrease_def)
qed

lemma consistent_tick:
  assumes "consistent s"
  shows "consistent (tick h s)"
proof (cases "timers s h")
  case None
  with assms show ?thesis by (simp add: tick_def)
next
  case (Some p)
  obtain b x where p: "p = (b, x)" by (cases p)
  let ?s2 = "publish ORDER_COUNTER (s\<lparr>orders := (orders s)[x := (orders s ! x)
                      \<lparr>counter := counter (orders s ! x) - 1\<rparr>]\<rparr>)"
  from assms have ti: "timers_ok (bots s) (timers s)" by (simp add: consistent_def)
  with Some p have b: "b < length (bots s)" unfolding timers_ok_def by blast
  have c2: "consistent ?s2" and b2: "bots ?s2 = bots s"
    using assms by (simp_all add: consistent_publish_quiet consistent_counter publish_counter)
  let ?s3 = "case counterHandle (bots ?s2 ! b) of Some h' \<Rightarrow> clearTimeout h' ?s2 | None \<Rightarrow> ?s2"
  from consistent_stop [OF c2, of b]
  have c3: "consistent ?s3" and t3: "timerless b (timers ?s3)" and b3: "bots ?s3 = bots ?s2"
    by simp_all
  from b b2 b3 have bl: "b < length (bots ?s3)" by simp
  from consistent_Bot_completeOrder [OF c3 bl t3]
  have "consistent (Bot_processNextOrder b (Bot_completeOrder b ?s3))"
    using bl by (simp add: consistent_Bot_processNextOrder)
  with c2 show ?thesis
    by (simp add: tick_def Some p Let_def)
qed

lemma consistent_engine: "consistent (engine ou bu nh)"
  by (simp add: engine_def Controller_new_def subscribe_def OrderManager_new_def consistent_def
      getOrderList_def stored_ok_def held_ok_def timers_ok_def queue_ok_def)

lemma consistent_step: "consistent s \<Longrightarrow> consistent (step a s)"
  by (cases a)
     (simp_all add: consistent_createNormalOrder consistent_createVipOrder consistent_increase
        consistent_decrease consistent_tick subscribe_def)

lemma reachable_consistent: "reachable s \<Longrightarrow> consistent s"
  by (induction rule: reachable.induct) (simp_all add: consistent_engine consistent_step)

lemmas engine_defs =
  run_def init_def engine_def new_engine_def Controller_new_def OrderManager_new_def subscribe_def
  createNormalOrder_def createVipOrder_def Order_new_def completeOrder_def updateCache_def
  publish.simps Bot_processNextOrder.simps processNextOrder.simps shift_next_def
  hasIdleBot_def getOrderList_def updateOrder_def setInterval_def clearTimeout_def
  Bot_completeOrder_def destroy_def tick_def Bot_new_def increase_def decrease_def
  getBots_def Let_def

lemma reachable_init: "reachable init"
  unfolding init_def by (rule reachable_engine)

lemma reachable_run: "reachable s \<Longrightarrow> reachable (run acts s)"
  unfolding run_def by (induction acts arbitrary: s) (simp_all add: reachable_step)

section \<open>The priority of the three pending queues\<close>

text \<open>
  C1. For every state, \<open>OrderManager.processNextOrder\<close> returns the head of
  \<open>queueCache\<close> if that queue is not empty; otherwise the head of \<open>queueVipOrder\<close> if
  that one is not empty; otherwise the head of \<open>queueNormalOrder\<close> if that one is not
  empty; otherwise nothing. The returned order is removed from its queue and the other
  queues are left alone. \<open>ORDER_UPDATED\<close> is published once if an order is returned,
  and nothing is published if none is.
\<close>

theorem processNextOrder_priority:
  "(queueCache s \<noteq> [] \<longrightarrow>
      fst (processNextOrder s) = Some (hd (queueCache s)) \<and>
      queueCache (snd (processNextOrder s)) = tl (queueCache s) \<and>
      queueVipOrder (snd (processNextOrder s)) = queueVipOrder s \<and>
      queueNormalOrder (snd (processNextOrder s)) = queueNormalOrder s) \<and>
   (queueCache s = [] \<and> queueVipOrder s \<noteq> [] \<longrightarrow>
      fst (processNextOrder s) = Some (hd (queueVipOrder s)) \<and>
      queueCache (snd (processNextOrder s)) = [] \<and>
      queueVipOrder (snd (processNextOrder s)) = tl (queueVipOrder s) \<and>
      queueNormalOrder (snd (processNextOrder s)) = queueNormalOrder s) \<and>
   (queueCache s = [] \<and> queueVipOrder s = [] \<and> queueNormalOrder s \<noteq> [] \<longrightarrow>
      fst (processNextOrder s) = Some (hd (queueNormalOrder s)) \<and>
      queueCache (snd (processNextOrder s)) = [] \<and>
      queueVipOrder (snd (processNextOrder s)) = [] \<and>
      queueNormalOrder (snd (processNextOrder s)) = tl (queueNormalOrder s)) \<and>
   (queueCache s = [] \<and> queueVipOrder s = [] \<and> queueNormalOrder s = [] \<longrightarrow>
      fst (processNextOrder s) = None \<and> snd (processNextOrder s) = s) \<and>
   queueComplete (snd (processNextOrder s)) = queueComplete s \<and>
   published (snd (processNextOrder s)) =
     published s @ (if fst (processNextOrder s) = None then [] else [ORDER_UPDATED])"
  by (simp add: processNextOrder.simps shift_next_def publish_updated split: list.split)

text \<open>
  The four cases at work: after \<open>one_recovered\<close> the recovered VIP order 1 comes
  first although two normal orders wait; with one normal and one VIP order pending the
  VIP order comes first; a lone normal order is returned; the fresh engine returns
  nothing and stays as it is.
\<close>

theorem processNextOrder_priority_witness:
  "(queueCache one_recovered \<noteq> [] \<and>
    queueNormalOrder one_recovered = [0, 2] \<and>
    fst (processNextOrder one_recovered) = Some 1 \<and>
    queueCache (snd (processNextOrder one_recovered)) = []) \<and>
   (queueCache (run [CreateNormalOrder, CreateVipOrder] init) = [] \<and>
    queueVipOrder (run [CreateNormalOrder, CreateVipOrder] init) \<noteq> [] \<and>
    fst (processNextOrder (run [CreateNormalOrder, CreateVipOrder] init)) = Some 1) \<and>
   (queueCache (run [CreateNormalOrder] init) = [] \<and>
    queueVipOrder (run [CreateNormalOrder] init) = [] \<and>
    queueNormalOrder (run [CreateNormalOrder] init) \<noteq> [] \<and>
    fst (processNextOrder (run [CreateNormalOrder] init)) = Some 0) \<and>
   (queueCache init = [] \<and> queueVipOrder init = [] \<and> queueNormalOrder init = [] \<and>
    processNextOrder init = (None, init))"
proof -
  have q1: "queueCache one_recovered = [1]" "queueNormalOrder one_recovered = [0, 2]"
    by (simp_all add: one_recovered_def engine_defs)
  have q2: "queueCache (run [CreateNormalOrder, CreateVipOrder] init) = []"
    "queueVipOrder (run [CreateNormalOrder, CreateVipOrder] init) = [1]"
    by (simp_all add: engine_defs)
  have q3: "queueCache (run [CreateNormalOrder] init) = []"
    "queueVipOrder (run [CreateNormalOrder] init) = []"
    "queueNormalOrder (run [CreateNormalOrder] init) = [0]"
    by (simp_all add: engine_defs)
  have q4: "queueCache init = []" "queueVipOrder init = []" "queueNormalOrder init = []"
    by (simp_all add: engine_defs)
  show ?thesis
    using processNextOrder_priority [of one_recovered]
      processNextOrder_priority [of "run [CreateNormalOrder, CreateVipOrder] init"]
      processNextOrder_priority [of "run [CreateNormalOrder] init"]
      processNextOrder_priority [of init]
    by (simp add: q1 q2 q3 q4 prod_eq_iff)
qed

section \<open>Recovered orders come first, the latest one before the others\<close>

text \<open>
  C3. \<open>OrderManager.updateCache\<close> puts its order at the front of \<open>queueCache\<close>. In
  every state, the call of \<open>processNextOrder\<close> that follows \<open>updateCache x\<close> returns
  \<open>x\<close>, whatever waits in the three queues, and leaves the queues as they were
  before the recovery. After recovering \<open>x\<close> and then \<open>y\<close>, the order \<open>y\<close> is
  returned first and \<open>x\<close> second.
\<close>

theorem updateCache_next:
  "queueCache (updateCache x s) = x # queueCache s \<and>
   fst (processNextOrder (updateCache x s)) = Some x \<and>
   queueCache (snd (processNextOrder (updateCache x s))) = queueCache s \<and>
   queueVipOrder (snd (processNextOrder (updateCache x s))) = queueVipOrder s \<and>
   queueNormalOrder (snd (processNextOrder (updateCache x s))) = queueNormalOrder s \<and>
   fst (processNextOrder (updateCache y (updateCache x s))) = Some y \<and>
   fst (processNextOrder (snd (processNextOrder (updateCache y (updateCache x s))))) = Some x"
  by (simp add: processNextOrder.simps shift_next_def publish_updated updateCache_def)

section \<open>An order in a bot's hands is in no collection\<close>

text \<open>
  C9. In every state the engine can reach, an order that is some bot's
  \<open>currentOrder\<close> is in none of \<open>queueCache\<close>, \<open>queueVipOrder\<close>, \<open>queueNormalOrder\<close>
  and \<open>queueComplete\<close>, hence not in the list \<open>getOrderList\<close> returns. It is back in
  that list once the bot completes it (at the end, in \<open>queueComplete\<close>) or is destroyed
  (at the front, in \<open>queueCache\<close>).
\<close>

theorem held_order_not_listed:
  assumes "reachable s" and "b < length (bots s)" and "currentOrder (bots s ! b) = Some x"
  shows "x \<notin> set (queueCache s) \<and> x \<notin> set (queueVipOrder s) \<and>
     x \<notin> set (queueNormalOrder s) \<and> x \<notin> set (queueComplete s) \<and>
     x \<notin> set (getOrderList s) \<and>
     getOrderList (Bot_completeOrder b s) = getOrderList s @ [x] \<and>
     getOrderList (destroy b s) = x # getOrderList s"
proof -
  from assms(1) have "consistent s" by (rule reachable_consistent)
  then have "held_ok (getOrderList s) (length (orders s)) (bots s)"
    by (simp add: consistent_def)
  with assms(2,3) have "x \<notin> set (getOrderList s)" unfolding held_ok_def by blast
  moreover have "getOrderList (Bot_completeOrder b s) = getOrderList s @ [x]"
    using assms(3)
    by (simp add: Bot_completeOrder_def completeOrder_def publish_updated Let_def)
       (simp add: getOrderList_def)
  moreover have "getOrderList (destroy b s) = x # getOrderList s"
    using assms(3)
    by (simp add: destroy_def updateCache_def publish_updated clearTimeout_def Let_def
        split: option.split)
       (simp add: getOrderList_def)
  ultimately show ?thesis by (simp add: getOrderList_def)
qed

theorem held_order_not_listed_witness:
  "reachable one_order_one_bot \<and> 0 < length (bots one_order_one_bot) \<and>
   currentOrder (bots one_order_one_bot ! 0) = Some 0 \<and>
   0 \<notin> set (getOrderList one_order_one_bot) \<and>
   getOrderList (Bot_completeOrder 0 one_order_one_bot) = [0] \<and>
   getOrderList (destroy 0 one_order_one_bot) = [0]"
proof -
  have r: "reachable one_order_one_bot"
    unfolding one_order_one_bot_def by (rule reachable_run) (rule reachable_init)
  have l: "0 < length (bots one_order_one_bot)"
    and c: "currentOrder (bots one_order_one_bot ! 0) = Some 0"
    and g: "getOrderList one_order_one_bot = []"
    by (simp_all add: one_order_one_bot_def engine_defs)
  from held_order_not_listed [OF r l c] r l c g show ?thesis by simp
qed

section \<open>Completing and recovering without holding the order\<close>

lemma Bot_completeOrder_current:
  "b < length (bots s) \<Longrightarrow> currentOrder (bots (Bot_completeOrder b s) ! b) = None"
  by (simp add: Bot_completeOrder_def completeOrder_def publish_updated Let_def
      split: option.split)

text \<open>
  C2 as stated: \<open>completeOrder\<close> on an order that no bot holds is a silent no-op, and
  \<open>updateCache\<close> on such an order does not put it into a second collection. The
  \<open>OrderManager\<close> keeps no record of what is in a bot's hands, and neither method
  looks at its argument. In \<open>one_order_done\<close> order 0 is complete and bot 0 holds
  nothing: a second \<open>completeOrder 0\<close> changes the state and lists the order twice;
  \<open>updateCache 0\<close> puts it into \<open>queueCache\<close> while it stays in \<open>queueComplete\<close>.
\<close>

theorem complete_and_recover_unguarded:
  "currentOrder (bots one_order_done ! 0) = None \<and>
   getOrderList one_order_done = [0] \<and>
   getOrderList (completeOrder 0 one_order_done) = [0, 0] \<and>
   completeOrder 0 one_order_done \<noteq> one_order_done \<and>
   queueCache (updateCache 0 one_order_done) = [0] \<and>
   queueComplete (updateCache 0 one_order_done) = [0] \<and>
   getOrderList (updateCache 0 one_order_done) = [0, 0]"
proof -
  have "getOrderList (completeOrder 0 one_order_done) = [0, 0]"
    by (simp add: one_order_done_def engine_defs)
  moreover have "getOrderList one_order_done = [0]"
    by (simp add: one_order_done_def engine_defs)
  ultimately have "completeOrder 0 one_order_done \<noteq> one_order_done" by auto
  then show ?thesis
    by (simp add: one_order_done_def engine_defs)
qed

text \<open>
  C2 as the code has it. The guard is in the bot: \<open>Bot.completeOrder\<close> on a bot that
  holds nothing changes nothing, so a second \<open>Bot.completeOrder\<close> is a no-op, and
  \<open>Bot.destroy\<close> on such a bot recovers nothing. \<open>OrderManager.completeOrder\<close> and
  \<open>OrderManager.updateCache\<close> always add their argument, at the end of
  \<open>queueComplete\<close> and at the front of \<open>queueCache\<close>. As the bots are their only
  callers, no order is listed twice in any state the engine reaches.
\<close>

theorem guards_are_in_the_bot:
  "(currentOrder (bots s ! b) = None \<longrightarrow>
      Bot_completeOrder b s = s \<and> getOrderList (destroy b s) = getOrderList s) \<and>
   (b < length (bots s) \<longrightarrow>
      Bot_completeOrder b (Bot_completeOrder b s) = Bot_completeOrder b s) \<and>
   queueComplete (completeOrder x s) = queueComplete s @ [x] \<and>
   queueCache (updateCache x s) = x # queueCache s \<and>
   (reachable s \<longrightarrow> distinct (getOrderList s))"
proof -
  have "currentOrder (bots s ! b) = None \<longrightarrow>
      Bot_completeOrder b s = s \<and> getOrderList (destroy b s) = getOrderList s"
    by (simp add: Bot_completeOrder_def destroy_def clearTimeout_def Let_def
        split: option.split)
  moreover have "b < length (bots s) \<longrightarrow>
      Bot_completeOrder b (Bot_completeOrder b s) = Bot_completeOrder b s"
    using Bot_completeOrder_current [of b s]
    by (simp add: Bot_completeOrder_def [of b "Bot_completeOrder b s"])
  moreover have "queueComplete (completeOrder x s) = queueComplete s @ [x]"
    by (simp add: completeOrder_def publish_updated)
  moreover have "queueCache (updateCache x s) = x # queueCache s"
    by (simp add: updateCache_def publish_updated)
  moreover have "reachable s \<longrightarrow> distinct (getOrderList s)"
    using reachable_consistent [of s] by (auto simp: consistent_def stored_ok_def)
  ultimately show ?thesis by blast
qed

theorem guards_are_in_the_bot_witness:
  "currentOrder (bots one_order_done ! 0) = None \<and>
   0 < length (bots one_order_done) \<and>
   reachable one_order_done \<and>
   Bot_completeOrder 0 one_order_done = one_order_done \<and>
   getOrderList (destroy 0 one_order_done) = [0] \<and>
   Bot_completeOrder 0 (Bot_completeOrder 0 one_order_done) = Bot_completeOrder 0 one_order_done \<and>
   distinct (getOrderList one_order_done)"
proof -
  have c: "currentOrder (bots one_order_done ! 0) = None"
    and l: "0 < length (bots one_order_done)"
    and g: "getOrderList one_order_done = [0]"
    by (simp_all add: one_order_done_def engine_defs)
  have r: "reachable one_order_done"
    unfolding one_order_done_def by (rule reachable_run) (rule reachable_init)
  from guards_are_in_the_bot [of one_order_done 0] c l g r show ?thesis by simp
qed

section \<open>Destroying a bot\<close>

text \<open>
  What \<open>Bot.destroy\<close> does to a bot that holds an order: the interval named by
  \<open>counterHandle\<close> is cleared, the order goes to the front of \<open>queueCache\<close>, and the bot
  is left without order, idle and marked as destroyed.
\<close>

lemma destroy_holding:
  assumes "b < length (bots s)" and "currentOrder (bots s ! b) = Some x"
  shows "queueCache (destroy b s) = x # queueCache s"
    and "currentOrder (bots (destroy b s) ! b) = None"
    and "Bot.status (bots (destroy b s) ! b) = IDLE"
    and "isDestroyed (bots (destroy b s) ! b)"
    and "counterHandle (bots s ! b) = Some h \<Longrightarrow> timers (destroy b s) h = None"
  using assms
  by (simp_all add: destroy_def updateCache_def publish_updated clearTimeout_def Let_def
      split: option.split)

text \<open>
  C4. The claim is that \<open>destroy\<close> marks every bot as destroyed, whether or not it
  holds an order. In the code the return for a bot without order comes before the
  assignments to \<open>status\<close> and \<open>isDestroyed\<close>. The bot of \<open>one_idle_bot\<close> is idle and
  holds nothing; after \<open>destroy\<close>, called directly or through \<open>Controller.decrease\<close>,
  its \<open>isDestroyed\<close> is still unset, whereas the bot of \<open>one_order_one_bot\<close>, which
  holds an order, is marked.
\<close>

theorem destroy_idle_not_marked:
  "Bot.status (bots one_idle_bot ! 0) = IDLE \<and>
   currentOrder (bots one_idle_bot ! 0) = None \<and>
   isDestroyed (bots one_idle_bot ! 0) = False \<and>
   queue one_idle_bot = [0] \<and>
   isDestroyed (bots (destroy 0 one_idle_bot) ! 0) = False \<and>
   isDestroyed (bots (decrease one_idle_bot) ! 0) = False \<and>
   isDestroyed (bots (destroy 0 one_order_one_bot) ! 0) = True"
  by (simp add: one_idle_bot_def one_order_one_bot_def engine_defs)

section \<open>Uids of orders\<close>

lemma ident_irrelevant [simp]:
  "ident (s\<lparr>published := p\<rparr>) = ident s"
  "ident (s\<lparr>observed := ob\<rparr>) = ident s"
  "ident (s\<lparr>bots := B\<rparr>) = ident s"
  "ident (s\<lparr>timers := T\<rparr>) = ident s"
  "ident (s\<lparr>nextHandle := nh\<rparr>) = ident s"
  "ident (s\<lparr>queue := Q\<rparr>) = ident s"
  "ident (s\<lparr>queueNormalOrder := qn\<rparr>) = ident s"
  "ident (s\<lparr>queueVipOrder := qv\<rparr>) = ident s"
  by (simp_all add: ident_def)

lemma ident_counter [simp]:
  "ident (s\<lparr>orders := (orders s)[x := (orders s ! x)\<lparr>counter := c\<rparr>]\<rparr>) = ident s"
  by (cases "x < length (orders s)") (simp_all add: ident_def list_eq_iff_nth_eq nth_list_update)

lemma ident_Bot_processNextOrder:
  "ident (Bot_processNextOrder b s) = ident s \<and>
   orderUid (Bot_processNextOrder b s) = orderUid s"
proof (cases s rule: shift_next_cases)
  case none
  then show ?thesis by (simp add: Bot_processNextOrder_none)
next
  case (some x s1)
  from some(4) have "ident s1 = ident s" by (simp add: ident_def)
  moreover have "ident (Bot_processNextOrder b s) = ident s1 \<and>
      orderUid (Bot_processNextOrder b s) = orderUid s1"
    using some(1)
    by (simp add: Bot_processNextOrder.simps processNextOrder.simps publish_updated
        publish_counter updateOrder_def setInterval_def Let_def)
  ultimately show ?thesis using some by simp
qed

lemma ident_forEach_bot:
  "ident (forEach_bot bs s) = ident s \<and> orderUid (forEach_bot bs s) = orderUid s"
  by (induction bs arbitrary: s) (simp_all add: ident_Bot_processNextOrder)

lemma ident_run_task:
  "ident (run_task t data s) = ident s \<and> orderUid (run_task t data s) = orderUid s"
  by (cases t) (simp_all add: ident_forEach_bot)

lemma ident_forEach_task:
  "ident (forEach_task ts data s) = ident s \<and> orderUid (forEach_task ts data s) = orderUid s"
  by (induction ts arbitrary: s) (simp_all add: ident_run_task)

lemma ident_publish:
  "ident (publish data s) = ident s \<and> orderUid (publish data s) = orderUid s"
  by (simp add: publish.simps ident_forEach_task)

lemma createNormalOrder_ident:
  "fst (createNormalOrder s) = length (orders s) \<and>
   ident (snd (createNormalOrder s)) = ident s @ [(orderUid s, ORDER_TYPE_NORMAL)] \<and>
   orderUid (snd (createNormalOrder s)) = Suc (orderUid s)"
  by (simp add: createNormalOrder_def Order_new_def ident_publish) (simp add: ident_def)

lemma createVipOrder_ident:
  "fst (createVipOrder s) = length (orders s) \<and>
   ident (snd (createVipOrder s)) = ident s @ [(orderUid s, ORDER_TYPE_VIP)] \<and>
   orderUid (snd (createVipOrder s)) = Suc (orderUid s)"
  by (simp add: createVipOrder_def Order_new_def ident_publish) (simp add: ident_def)

lemma createOrders_ident:
  "fst (createOrders tys s) = [length (orders s)..<length (orders s) + length tys] \<and>
   ident (snd (createOrders tys s)) =
     ident s @ zip [orderUid s..<orderUid s + length tys] tys \<and>
   orderUid (snd (createOrders tys s)) = orderUid s + length tys"
proof (induction tys arbitrary: s)
  case Nil
  then show ?case by simp
next
  case (Cons ty tys)
  let ?c = "case ty of ORDER_TYPE_NORMAL \<Rightarrow> createNormalOrder s
            | ORDER_TYPE_VIP \<Rightarrow> createVipOrder s"
  have c: "fst ?c = length (orders s)" "ident (snd ?c) = ident s @ [(orderUid s, ty)]"
    "orderUid (snd ?c) = Suc (orderUid s)"
    by (cases ty; simp add: createNormalOrder_ident createVipOrder_ident)+
  from c(2) have len: "length (orders (snd ?c)) = Suc (length (orders s))"
    by (metis ident_def length_append_singleton length_map)
  have upt: "\<And>a. [a..<a + length (ty # tys)] = a # [Suc a..<Suc a + length tys]"
    using upt_conv_Cons [of a "a + length (ty # tys)" for a] by (simp del: upt_Suc)
  from Cons.IH [of "snd ?c"] c len show ?case
    unfolding upt by (simp add: split_beta)
qed


lemma created_nth:
  assumes "i < length tys"
  shows "Order.uid (orders (snd (createOrders tys s)) ! (length (orders s) + i)) = orderUid s + i"
    and "orderType (orders (snd (createOrders tys s)) ! (length (orders s) + i)) = tys ! i"
proof -
  let ?s = "snd (createOrders tys s)"
  from createOrders_ident [of tys s]
  have id: "ident ?s = ident s @ zip [orderUid s..<orderUid s + length tys] tys" by simp
  have len: "length (ident ?s) = length (orders ?s)" "length (ident s) = length (orders s)"
    by (simp_all add: ident_def)
  from id len have "length (orders ?s) = length (orders s) + length tys"
    by (metis add_diff_cancel_left' length_append length_upt length_zip min.idem)
  with assms have "ident ?s ! (length (orders s) + i) =
      (Order.uid (orders ?s ! (length (orders s) + i)),
       orderType (orders ?s ! (length (orders s) + i)))"
    by (simp add: ident_def)
  moreover from assms len have "ident ?s ! (length (orders s) + i) = (orderUid s + i, tys ! i)"
    by (simp add: id nth_append)
  ultimately show "Order.uid (orders ?s ! (length (orders s) + i)) = orderUid s + i"
    and "orderType (orders ?s ! (length (orders s) + i)) = tys ! i" by simp_all
qed

text \<open>
  C8 as stated: on a registry, the uids of the orders created start at 0. The counter
  belongs to the module, not to the registry. \<open>second_engine\<close> is a new registry and
  controller, with no order object and empty collections, in a process where two
  orders have been created before: its first three orders get the uids 2, 3 and 4.
\<close>

theorem second_engine_uids:
  "orders second_engine = [] \<and>
   getOrderList second_engine = [] \<and>
   map (\<lambda>x. Order.uid (orders (snd (createOrders
          [ORDER_TYPE_NORMAL, ORDER_TYPE_NORMAL, ORDER_TYPE_VIP] second_engine)) ! x))
     (fst (createOrders [ORDER_TYPE_NORMAL, ORDER_TYPE_NORMAL, ORDER_TYPE_VIP] second_engine)) =
     [2, 3, 4]"
  by (simp add: second_engine_def engine_defs)

text \<open>
  C8 as the code has it. For every sequence of \<open>createNormalOrder\<close> and
  \<open>createVipOrder\<close> calls, in any interleaving of the two kinds and from any state of
  the engine (with or without bots that pick the new orders up at once), the uids of
  the orders created are consecutive numbers in the order of the calls, starting at
  the value of the one counter both kinds draw from. They are therefore pairwise
  different and strictly increasing, and each order has the kind that was asked for.
  The counter is that of the module: the uids start at 0 on the first engine of a
  process, and on an engine built later they start where the engine before it has left
  the counter.
\<close>

theorem created_uids:
  "map (\<lambda>x. Order.uid (orders (snd (createOrders tys s)) ! x)) (fst (createOrders tys s)) =
     [orderUid s..<orderUid s + length tys] \<and>
   map (\<lambda>x. orderType (orders (snd (createOrders tys s)) ! x)) (fst (createOrders tys s)) = tys \<and>
   map (\<lambda>x. Order.uid (orders (snd (createOrders tys init)) ! x)) (fst (createOrders tys init)) =
     [0..<length tys] \<and>
   map (\<lambda>x. Order.uid (orders (snd (createOrders tys (new_engine s'))) ! x))
     (fst (createOrders tys (new_engine s'))) =
     [orderUid s'..<orderUid s' + length tys] \<and>
   orderUid (snd (createOrders tys s)) = orderUid s + length tys \<and>
   distinct (map (\<lambda>x. Order.uid (orders (snd (createOrders tys s)) ! x))
     (fst (createOrders tys s))) \<and>
   sorted_wrt (<) (map (\<lambda>x. Order.uid (orders (snd (createOrders tys s)) ! x))
     (fst (createOrders tys s)))"
proof -
  have refs: "fst (createOrders tys s) = [length (orders s)..<length (orders s) + length tys]"
    for s using createOrders_ident [of tys s] by simp
  have u: "map (\<lambda>x. Order.uid (orders (snd (createOrders tys s)) ! x)) (fst (createOrders tys s)) =
     [orderUid s..<orderUid s + length tys]" for s
    by (rule nth_equalityI) (simp_all add: refs created_nth)
  have t: "map (\<lambda>x. orderType (orders (snd (createOrders tys s)) ! x)) (fst (createOrders tys s)) = tys"
    by (rule nth_equalityI) (simp_all add: refs created_nth)
  have z: "orderUid init = 0" "orderUid (new_engine s') = orderUid s'"
    by (simp_all add: init_def new_engine_def engine_def Controller_new_def subscribe_def
        OrderManager_new_def)
  from u [of init] z have
    "map (\<lambda>x. Order.uid (orders (snd (createOrders tys init)) ! x)) (fst (createOrders tys init)) =
     [0..<length tys]" by simp
  moreover from u [of "new_engine s'"] z have
    "map (\<lambda>x. Order.uid (orders (snd (createOrders tys (new_engine s'))) ! x))
       (fst (createOrders tys (new_engine s'))) =
     [orderUid s'..<orderUid s' + length tys]" by simp
  moreover have "orderUid (snd (createOrders tys s)) = orderUid s + length tys"
    using createOrders_ident [of tys s] by simp
  ultimately show ?thesis using u [of s] t by (simp del: upt_Suc)
qed

section \<open>The controller wakes every idle bot\<close>

lemma Bot_processNextOrder_other:
  "x \<noteq> b \<Longrightarrow> bots (Bot_processNextOrder b s) ! x = bots s ! x"
  by (cases s rule: shift_next_cases)
     (simp_all add: Bot_processNextOrder.simps processNextOrder.simps publish_updated
        publish_counter updateOrder_def setInterval_def Let_def)

lemma forEach_bot_fold:
  "distinct bs \<Longrightarrow>
   forEach_bot bs s =
     fold Bot_processNextOrder (filter (\<lambda>b. Bot.status (bots s ! b) = IDLE) bs) s"
proof (induction bs arbitrary: s)
  case Nil
  then show ?case by simp
next
  case (Cons b bs)
  let ?s = "if Bot.status (bots s ! b) = IDLE then Bot_processNextOrder b s else s"
  have "\<forall>x\<in>set bs. bots ?s ! x = bots s ! x"
  proof
    fix x assume "x \<in> set bs"
    with Cons.prems have "x \<noteq> b" by auto
    then show "bots ?s ! x = bots s ! x" by (simp add: Bot_processNextOrder_other)
  qed
  then have "filter (\<lambda>b. Bot.status (bots ?s ! b) = IDLE) bs =
      filter (\<lambda>b. Bot.status (bots s ! b) = IDLE) bs"
    by (intro filter_cong) simp_all
  moreover from Cons.prems have "forEach_bot bs ?s =
      fold Bot_processNextOrder (filter (\<lambda>b. Bot.status (bots ?s ! b) = IDLE) bs) ?s"
    by (intro Cons.IH) simp
  ultimately show ?case by simp
qed

lemma hasIdleBot_filter:
  "hasIdleBot s \<longleftrightarrow> filter (\<lambda>b. Bot.status (bots s ! b) = IDLE) (queue s) \<noteq> []"
  by (simp add: hasIdleBot_def list_ex_iff filter_empty_conv)

text \<open>
  C5. When the controller's subscriber is called with \<open>ORDER_ADDED\<close>, the effect is
  that of calling \<open>Bot.processNextOrder\<close> once on each bot of the controller's queue
  that was idle when the event arrived, all of them and in the order of the queue (and
  on none if none is idle). In particular, with two idle bots and nothing pending,
  \<open>createNormalOrder\<close> leaves the first bot running with the new order and the second
  one idle.
\<close>

theorem ORDER_ADDED_wakes_every_idle_bot:
  "(distinct (queue s) \<longrightarrow>
      run_task ControllerTask ORDER_ADDED s =
        fold Bot_processNextOrder
          (filter (\<lambda>b. Bot.status (bots s ! b) = IDLE) (queue s)) s) \<and>
   queue two_idle_bots = [0, 1] \<and>
   map Bot.status (bots two_idle_bots) = [IDLE, IDLE] \<and>
   getOrderList two_idle_bots = [] \<and>
   map Bot.status (bots (snd (createNormalOrder two_idle_bots))) = [RUN, IDLE] \<and>
   map currentOrder (bots (snd (createNormalOrder two_idle_bots))) =
     [Some (fst (createNormalOrder two_idle_bots)), None]"
proof -
  have "run_task ControllerTask ORDER_ADDED s =
        fold Bot_processNextOrder
          (filter (\<lambda>b. Bot.status (bots s ! b) = IDLE) (queue s)) s" if "distinct (queue s)"
  proof (cases "hasIdleBot s")
    case True
    with that show ?thesis by (simp add: forEach_bot_fold)
  next
    case False
    then show ?thesis by (simp add: hasIdleBot_filter)
  qed
  then show ?thesis
    by (simp add: two_idle_bots_def engine_defs)
qed

text \<open>
  After a VIP order has been created in \<open>two_idle_bots\<close> the first bot is running;
  another \<open>ORDER_ADDED\<close> then reaches the second bot only.
\<close>

theorem ORDER_ADDED_wakes_every_idle_bot_witness:
  "distinct (queue (snd (createVipOrder two_idle_bots))) \<and>
   filter (\<lambda>b. Bot.status (bots (snd (createVipOrder two_idle_bots)) ! b) = IDLE)
     (queue (snd (createVipOrder two_idle_bots))) = [1] \<and>
   run_task ControllerTask ORDER_ADDED (snd (createVipOrder two_idle_bots)) =
     Bot_processNextOrder 1 (snd (createVipOrder two_idle_bots))"
proof -
  have q: "queue (snd (createVipOrder two_idle_bots)) = [0, 1]"
    and b: "map Bot.status (bots (snd (createVipOrder two_idle_bots))) = [RUN, IDLE]"
    by (simp_all add: two_idle_bots_def engine_defs)
  from b have b': "Bot.status (bots (snd (createVipOrder two_idle_bots)) ! 0) = RUN"
    "Bot.status (bots (snd (createVipOrder two_idle_bots)) ! 1) = IDLE"
    by (metis nth_map length_map nth_Cons_0 nth_Cons_Suc One_nat_def length_Cons zero_less_Suc
        list.size(3) lessI)+
  from ORDER_ADDED_wakes_every_idle_bot [of "snd (createVipOrder two_idle_bots)"] q b'
  show ?thesis by simp
qed

section \<open>Picking an order up and counting it down\<close>

lemma reachable_timer:
  assumes "reachable s" and "timers s h = Some (b, x)"
  shows "b < length (bots s)" and "counterHandle (bots s ! b) = Some h"
    and "currentOrder (bots s ! b) = Some x" and "Bot.status (bots s ! b) = RUN"
    and "x < length (orders s)"
proof -
  from assms(1) have c: "consistent s" by (rule reachable_consistent)
  then have "timers_ok (bots s) (timers s)" by (simp add: consistent_def)
  with assms(2) show b: "b < length (bots s)" and "counterHandle (bots s ! b) = Some h"
    and cur: "currentOrder (bots s ! b) = Some x" and "Bot.status (bots s ! b) = RUN"
    unfolding timers_ok_def by blast+
  from c have "held_ok (getOrderList s) (length (orders s)) (bots s)" by (simp add: consistent_def)
  with b cur show "x < length (orders s)" unfolding held_ok_def by blast
qed

lemma reachable_pending:
  assumes "reachable s" and "fst (processNextOrder s) = Some x"
  obtains s1 where "shift_next s = (Some x, s1)" and "x < length (orders s)"
proof (cases s rule: shift_next_cases)
  case none
  with assms(2) show ?thesis by (simp add: processNextOrder.simps)
next
  case (some y s1)
  with assms(2) have yx: "y = x" by (simp add: processNextOrder.simps)
  from assms(1) have "consistent s" by (rule reachable_consistent)
  then have "stored_ok (getOrderList s) (length (orders s))" by (simp add: consistent_def)
  with some(2) yx have "x < length (orders s)" by (simp add: stored_ok_def)
  with some(1) yx that show ?thesis by simp
qed

text \<open>
  C6. In every state the engine reaches:
  \<^item> a bot that picks up a pending order becomes running and holds it; the order's
    counter is set to 5 if the bot is a VIP bot and to 10 otherwise; after the
    \<open>ORDER_UPDATED\<close> of the dequeue, \<open>ORDER_COUNTER\<close> is published; an interval for the
    bot and the order is started under a new handle;
  \<^item> a tick of an interval whose order's counter is not 1 lowers the counter by one
    and publishes \<open>ORDER_COUNTER\<close>, and does nothing else;
  \<^item> a tick that finds the counter at 1 sets it to 0 and publishes \<open>ORDER_COUNTER\<close>,
    clears the interval, completes the order (it is \<open>COMPLETE\<close>, at the end of
    \<open>queueComplete\<close>, and \<open>ORDER_UPDATED\<close> is published), clears the bot's
    \<open>currentOrder\<close>, and then the bot runs \<open>processNextOrder\<close> again at once.
\<close>

theorem pickup_and_countdown:
  assumes "reachable s"
  shows "(b < length (bots s) \<longrightarrow> fst (processNextOrder s) = Some x \<longrightarrow>
      Bot.status (bots (Bot_processNextOrder b s) ! b) = RUN \<and>
      currentOrder (bots (Bot_processNextOrder b s) ! b) = Some x \<and>
      counter (orders (Bot_processNextOrder b s) ! x) =
        (if type (bots s ! b) = BOT_TYPE_VIP then 5 else 10) \<and>
      published (Bot_processNextOrder b s) = published s @ [ORDER_UPDATED, ORDER_COUNTER] \<and>
      counterHandle (bots (Bot_processNextOrder b s) ! b) = Some (nextHandle s) \<and>
      timers (Bot_processNextOrder b s) = (timers s)(nextHandle s \<mapsto> (b, x))) \<and>
   (timers s h = Some (b, x) \<longrightarrow> counter (orders s ! x) \<noteq> 1 \<longrightarrow>
      counter (orders (tick h s) ! x) = counter (orders s ! x) - 1 \<and>
      published (tick h s) = published s @ [ORDER_COUNTER] \<and>
      timers (tick h s) = timers s \<and> bots (tick h s) = bots s \<and>
      getOrderList (tick h s) = getOrderList s) \<and>
   (timers s h = Some (b, x) \<longrightarrow> counter (orders s ! x) = 1 \<longrightarrow>
      (let mid = Bot_completeOrder b (clearTimeout h (publish ORDER_COUNTER
                   (s\<lparr>orders := (orders s)[x := (orders s ! x)\<lparr>counter := 0\<rparr>]\<rparr>)))
       in tick h s = Bot_processNextOrder b mid \<and>
          counter (orders mid ! x) = 0 \<and>
          Order.status (orders mid ! x) = COMPLETE \<and>
          timers mid = (timers s)(h := None) \<and>
          queueComplete mid = queueComplete s @ [x] \<and>
          currentOrder (bots mid ! b) = None \<and>
          published mid = published s @ [ORDER_COUNTER, ORDER_UPDATED]))"
proof (intro conjI impI)
  assume b: "b < length (bots s)" and p: "fst (processNextOrder s) = Some x"
  from assms p obtain s1 where s1: "shift_next s = (Some x, s1)" and x: "x < length (orders s)"
    by (rule reachable_pending)
  from s1 have eqs: "orders s1 = orders s" "bots s1 = bots s" "timers s1 = timers s"
    "nextHandle s1 = nextHandle s" "published s1 = published s"
    by (cases s rule: shift_next_cases; simp)+
  from b eqs have b1: "b < length (bots s1)" by simp
  show "Bot.status (bots (Bot_processNextOrder b s) ! b) = RUN"
    "currentOrder (bots (Bot_processNextOrder b s) ! b) = Some x"
    "counter (orders (Bot_processNextOrder b s) ! x) =
        (if type (bots s ! b) = BOT_TYPE_VIP then 5 else 10)"
    "published (Bot_processNextOrder b s) = published s @ [ORDER_UPDATED, ORDER_COUNTER]"
    "counterHandle (bots (Bot_processNextOrder b s) ! b) = Some (nextHandle s)"
    "timers (Bot_processNextOrder b s) = (timers s)(nextHandle s \<mapsto> (b, x))"
    using b x by (simp_all add: Bot_processNextOrder_some [OF s1 b1] eqs)
next
  assume t: "timers s h = Some (b, x)" and c: "counter (orders s ! x) \<noteq> 1"
  from reachable_timer [OF assms t] have x: "x < length (orders s)" by simp
  with t c show "counter (orders (tick h s) ! x) = counter (orders s ! x) - 1"
    "published (tick h s) = published s @ [ORDER_COUNTER]"
    "timers (tick h s) = timers s" "bots (tick h s) = bots s"
    "getOrderList (tick h s) = getOrderList s"
    by (simp_all add: tick_def publish_counter Let_def)
next
  assume t: "timers s h = Some (b, x)" and c: "counter (orders s ! x) = 1"
  from reachable_timer [OF assms t] have x: "x < length (orders s)"
    and b: "b < length (bots s)" and ch: "counterHandle (bots s ! b) = Some h"
    and cur: "currentOrder (bots s ! b) = Some x" by simp_all
  let ?mid = "Bot_completeOrder b (clearTimeout h (publish ORDER_COUNTER
      (s\<lparr>orders := (orders s)[x := (orders s ! x)\<lparr>counter := 0\<rparr>]\<rparr>)))"
  have "tick h s = Bot_processNextOrder b ?mid"
    using t c x ch by (simp add: tick_def publish_counter Let_def)
  moreover have "counter (orders ?mid ! x) = 0" "Order.status (orders ?mid ! x) = COMPLETE"
    "timers ?mid = (timers s)(h := None)" "queueComplete ?mid = queueComplete s @ [x]"
    "currentOrder (bots ?mid ! b) = None"
    "published ?mid = published s @ [ORDER_COUNTER, ORDER_UPDATED]"
    using c x b cur
    by (simp_all add: Bot_completeOrder_def completeOrder_def clearTimeout_def publish_counter
        publish_updated Let_def)
  ultimately show "let mid = Bot_completeOrder b (clearTimeout h (publish ORDER_COUNTER
                   (s\<lparr>orders := (orders s)[x := (orders s ! x)\<lparr>counter := 0\<rparr>]\<rparr>)))
       in tick h s = Bot_processNextOrder b mid \<and>
          counter (orders mid ! x) = 0 \<and>
          Order.status (orders mid ! x) = COMPLETE \<and>
          timers mid = (timers s)(h := None) \<and>
          queueComplete mid = queueComplete s @ [x] \<and>
          currentOrder (bots mid ! b) = None \<and>
          published mid = published s @ [ORDER_COUNTER, ORDER_UPDATED]"
    by (simp add: Let_def)
qed

text \<open>
  The three cases at work: the idle VIP bot of \<open>running_bot_destroyed\<close> picks the
  recovered order up with counter 5; the first tick of a normal bot takes the counter
  from 10 to 9; its tenth tick completes the order and leaves the bot idle.
\<close>

theorem pickup_and_countdown_witness:
  "(reachable running_bot_destroyed \<and> 0 < length (bots running_bot_destroyed) \<and>
    fst (processNextOrder running_bot_destroyed) = Some 1 \<and>
    type (bots running_bot_destroyed ! 0) = BOT_TYPE_VIP \<and>
    currentOrder (bots (Bot_processNextOrder 0 running_bot_destroyed) ! 0) = Some 1 \<and>
    counter (orders (Bot_processNextOrder 0 running_bot_destroyed) ! 1) = 5) \<and>
   (reachable one_order_one_bot \<and> timers one_order_one_bot 1 = Some (0, 0) \<and>
    type (bots one_order_one_bot ! 0) = BOT_TYPE_NORMAL \<and>
    counter (orders one_order_one_bot ! 0) = 10 \<and>
    counter (orders (tick 1 one_order_one_bot) ! 0) = 9 \<and>
    published (tick 1 one_order_one_bot) = published one_order_one_bot @ [ORDER_COUNTER]) \<and>
   (reachable one_order_last_tick \<and> timers one_order_last_tick 1 = Some (0, 0) \<and>
    counter (orders one_order_last_tick ! 0) = 1 \<and>
    timers (tick 1 one_order_last_tick) 1 = None \<and>
    queueComplete (tick 1 one_order_last_tick) = [0] \<and>
    Order.status (orders (tick 1 one_order_last_tick) ! 0) = COMPLETE \<and>
    currentOrder (bots (tick 1 one_order_last_tick) ! 0) = None \<and>
    Bot.status (bots (tick 1 one_order_last_tick) ! 0) = IDLE)"
proof -
  have r1: "reachable running_bot_destroyed"
    unfolding running_bot_destroyed_def vip_done_normal_running_def
    using reachable_step [of _ Decrease] by (simp add: reachable_run reachable_init)
  have r2: "reachable one_order_one_bot"
    unfolding one_order_one_bot_def by (rule reachable_run) (rule reachable_init)
  have r3: "reachable one_order_last_tick"
    unfolding one_order_last_tick_def by (rule reachable_run) (rule reachable_init)
  have h1: "0 < length (bots running_bot_destroyed)"
    "fst (processNextOrder running_bot_destroyed) = Some 1"
    "type (bots running_bot_destroyed ! 0) = BOT_TYPE_VIP"
    by (simp_all add: running_bot_destroyed_def vip_done_normal_running_def engine_defs)
  have h2: "timers one_order_one_bot 1 = Some (0, 0)"
    "type (bots one_order_one_bot ! 0) = BOT_TYPE_NORMAL"
    "counter (orders one_order_one_bot ! 0) = 10"
    by (simp_all add: one_order_one_bot_def engine_defs)
  have h3: "timers one_order_last_tick 1 = Some (0, 0)"
    "counter (orders one_order_last_tick ! 0) = 1"
    by (simp_all add: one_order_last_tick_def engine_defs)
  have e3: "timers (tick 1 one_order_last_tick) 1 = None"
    "queueComplete (tick 1 one_order_last_tick) = [0]"
    "Order.status (orders (tick 1 one_order_last_tick) ! 0) = COMPLETE"
    "currentOrder (bots (tick 1 one_order_last_tick) ! 0) = None"
    "Bot.status (bots (tick 1 one_order_last_tick) ! 0) = IDLE"
    by (simp_all add: one_order_last_tick_def engine_defs)
  from pickup_and_countdown [OF r1, where b = 0 and x = 1 and h = 1]
    pickup_and_countdown [OF r2, where b = 0 and x = 0 and h = 1]
    pickup_and_countdown [OF r3, where b = 0 and x = 0 and h = 1]
  show ?thesis
    using r1 r2 r3 h1 h2 h3 e3 by simp
qed

section \<open>What a subscriber sees when an order is added\<close>

lemma hasIdleBot_irrelevant [simp]:
  "hasIdleBot (s\<lparr>observed := ob\<rparr>) = hasIdleBot s"
  "hasIdleBot (s\<lparr>published := p\<rparr>) = hasIdleBot s"
  by (simp_all add: hasIdleBot_def)

lemma forEach_task_no_idle:
  "\<not> hasIdleBot s \<Longrightarrow>
   forEach_task ts data s =
     s\<lparr>observed := observed s @ map (\<lambda>k. (k, data, getOrderList s)) (observers ts)\<rparr>"
proof (induction ts arbitrary: s)
  case Nil
  then show ?case by simp
next
  case (Cons t ts)
  then show ?case by (cases t) simp_all
qed

lemma publish_no_idle:
  "\<not> hasIdleBot s \<Longrightarrow>
   publish data s =
     s\<lparr>published := published s @ [data],
       observed := observed s @ map (\<lambda>k. (k, data, getOrderList s)) (observers (messageQueue s))\<rparr>"
  by (simp add: publish.simps forEach_task_no_idle)

lemma deliveries_simps [simp]:
  "deliveries data [] = []"
  "deliveries data (ys @ zs) = deliveries data ys @ deliveries data zs"
  "deliveries data (map (\<lambda>k. (k, data, L)) ks) = ks"
  "data' \<noteq> data \<Longrightarrow> deliveries data (map (\<lambda>k. (k, data', L)) ks) = []"
  by (simp_all add: deliveries_def filter_map comp_def)

lemma deliveries_single [simp]:
  "deliveries data [(k, data, L)] = [k]"
  by (simp add: deliveries_def)

lemma Bot_processNextOrder_observed:
  "\<exists>ys. observed (Bot_processNextOrder b s) = observed s @ ys \<and>
        deliveries ORDER_ADDED ys = []"
proof (cases s rule: shift_next_cases)
  case none
  then show ?thesis by (simp add: Bot_processNextOrder_none)
next
  case (some x s1)
  let ?ys = "map (\<lambda>k. (k, ORDER_UPDATED, getOrderList s1)) (observers (messageQueue s1)) @
          map (\<lambda>k. (k, ORDER_COUNTER, getOrderList s1)) (observers (messageQueue s1))"
  have "observed (Bot_processNextOrder b s) = observed s1 @ ?ys"
    using some(1)
    by (simp add: Bot_processNextOrder.simps processNextOrder.simps publish_updated
        publish_counter updateOrder_def setInterval_def Let_def)
  moreover have "deliveries ORDER_ADDED ?ys = []" by simp
  ultimately show ?thesis using some(11) by metis
qed

lemma forEach_bot_observed:
  "\<exists>ys. observed (forEach_bot bs s) = observed s @ ys \<and> deliveries ORDER_ADDED ys = []"
proof (induction bs arbitrary: s)
  case Nil
  then show ?case by simp
next
  case (Cons b bs)
  let ?s = "if Bot.status (bots s ! b) = IDLE then Bot_processNextOrder b s else s"
  obtain ys where ys: "observed ?s = observed s @ ys" "deliveries ORDER_ADDED ys = []"
    using Bot_processNextOrder_observed [of b s] by (cases "Bot.status (bots s ! b) = IDLE") auto
  from Cons [of ?s] obtain zs where
    zs: "observed (forEach_bot bs ?s) = observed ?s @ zs" "deliveries ORDER_ADDED zs = []"
    by blast
  from ys zs have "observed (forEach_bot (b # bs) s) = observed s @ (ys @ zs)"
    "deliveries ORDER_ADDED (ys @ zs) = []" by simp_all
  then show ?case by blast
qed

lemma run_task_observed:
  "\<exists>ys. observed (run_task t data s) = observed s @ ys \<and>
        deliveries data ys = observers [t]"
proof (cases t)
  case ControllerTask
  show ?thesis
  proof (cases "data = ORDER_ADDED \<and> hasIdleBot s")
    case True
    with forEach_bot_observed [of "queue s" s] ControllerTask show ?thesis by simp
  next
    case False
    with ControllerTask show ?thesis by auto
  qed
next
  case (ObserverTask k)
  then show ?thesis by simp
qed

lemma forEach_task_observed:
  "\<exists>ys. observed (forEach_task ts data s) = observed s @ ys \<and>
        deliveries data ys = observers ts"
proof (induction ts arbitrary: s)
  case Nil
  then show ?case by simp
next
  case (Cons t ts)
  obtain ys where ys: "observed (run_task t data s) = observed s @ ys"
    "deliveries data ys = observers [t]"
    using run_task_observed by blast
  from Cons [of "run_task t data s"] obtain zs where
    zs: "observed (forEach_task ts data (run_task t data s)) = observed (run_task t data s) @ zs"
    "deliveries data zs = observers ts" by blast
  have "observers (t # ts) = observers [t] @ observers ts" by (cases t) simp_all
  with ys zs have "observed (forEach_task (t # ts) data s) = observed s @ (ys @ zs)"
    "deliveries data (ys @ zs) = observers (t # ts)" by simp_all
  then show ?case by blast
qed

lemma forEach_task_observers_first:
  "forEach_task (map ObserverTask ks @ rest) data s =
   forEach_task rest data
     (s\<lparr>observed := observed s @ map (\<lambda>k. (k, data, getOrderList s)) ks\<rparr>)"
  by (induction ks arbitrary: s) simp_all


lemma forEach_task_grows:
  "\<exists>ys. observed (forEach_task ts data s) = observed s @ ys"
  using forEach_task_observed [of ts data s] by blast

section \<open>Idle bots hold nothing, and only managed bots have intervals\<close>

lemma idle_ok_update:
  assumes "idle_ok B" and "Bot.status v = IDLE \<longrightarrow> currentOrder v = None"
  shows "idle_ok (B[b := v])"
  unfolding idle_ok_def
proof (intro allI impI)
  fix c assume c: "c < length (B[b := v])" "Bot.status (B[b := v] ! c) = IDLE"
  show "currentOrder (B[b := v] ! c) = None"
  proof (cases "c = b")
    case True
    with c assms(2) show ?thesis by simp
  next
    case False
    with c assms(1) show ?thesis by (simp add: idle_ok_def)
  qed
qed

lemma idle_ok_append:
  "idle_ok B \<Longrightarrow> Bot.status v = IDLE \<longrightarrow> currentOrder v = None \<Longrightarrow> idle_ok (B @ [v])"
  unfolding idle_ok_def by (simp add: nth_append less_Suc_eq)

lemma idle_ok_Bot_processNextOrder:
  assumes "idle_ok (bots s)" and "b < length (bots s)" and "currentOrder (bots s ! b) = None"
  shows "idle_ok (bots (Bot_processNextOrder b s))"
proof (cases s rule: shift_next_cases)
  case none
  with assms show ?thesis by (simp add: Bot_processNextOrder_none idle_ok_update)
next
  case (some x s1)
  from assms(2) some have b1: "b < length (bots s1)" by simp
  from assms(1) some show ?thesis
    by (simp add: Bot_processNextOrder_some [OF some(1) b1] idle_ok_update)
qed

lemma idle_ok_forEach_bot:
  "idle_ok (bots s) \<Longrightarrow> \<forall>b\<in>set bs. b < length (bots s) \<Longrightarrow>
   idle_ok (bots (forEach_bot bs s))"
proof (induction bs arbitrary: s)
  case Nil
  then show ?case by simp
next
  case (Cons b bs)
  let ?s = "if Bot.status (bots s ! b) = IDLE then Bot_processNextOrder b s else s"
  from Cons.prems have b: "b < length (bots s)" by simp
  have len: "length (bots ?s) = length (bots s)" by (simp add: Bot_processNextOrder_length)
  have "idle_ok (bots ?s)"
  proof (cases "Bot.status (bots s ! b) = IDLE")
    case True
    with Cons.prems(1) b have "currentOrder (bots s ! b) = None" by (simp add: idle_ok_def)
    with Cons.prems(1) b True show ?thesis by (simp add: idle_ok_Bot_processNextOrder)
  next
    case False
    with Cons.prems(1) show ?thesis by simp
  qed
  moreover from Cons.prems(2) len have "\<forall>b\<in>set bs. b < length (bots ?s)" by simp
  ultimately have "idle_ok (bots (forEach_bot bs ?s))" by (rule Cons.IH)
  then show ?case by simp
qed

lemma frame_Bot_processNextOrder:
  "length (bots (Bot_processNextOrder b s)) = length (bots s) \<and>
   queue (Bot_processNextOrder b s) = queue s \<and>
   messageQueue (Bot_processNextOrder b s) = messageQueue s"
  by (cases s rule: shift_next_cases)
     (simp_all add: Bot_processNextOrder.simps processNextOrder.simps publish_updated
        publish_counter updateOrder_def setInterval_def Let_def)

lemma frame_forEach_bot:
  "length (bots (forEach_bot bs s)) = length (bots s) \<and>
   queue (forEach_bot bs s) = queue s \<and>
   messageQueue (forEach_bot bs s) = messageQueue s"
  by (induction bs arbitrary: s) (simp_all add: frame_Bot_processNextOrder)

lemma frame_run_task:
  "length (bots (run_task t data s)) = length (bots s) \<and>
   queue (run_task t data s) = queue s \<and>
   messageQueue (run_task t data s) = messageQueue s"
  by (cases t) (simp_all add: frame_forEach_bot)

lemma frame_forEach_task:
  "length (bots (forEach_task ts data s)) = length (bots s) \<and>
   queue (forEach_task ts data s) = queue s \<and>
   messageQueue (forEach_task ts data s) = messageQueue s"
  by (induction ts arbitrary: s) (simp_all add: frame_run_task)

lemma frame_publish:
  "length (bots (publish data s)) = length (bots s) \<and>
   queue (publish data s) = queue s \<and>
   messageQueue (publish data s) = messageQueue s"
  by (simp add: publish.simps frame_forEach_task)

lemma idle_ok_run_task:
  assumes "\<forall>b\<in>set (queue s). b < length (bots s)" and "idle_ok (bots s)"
  shows "idle_ok (bots (run_task t data s))"
  using assms idle_ok_forEach_bot [of s "queue s"] by (cases t) simp_all

lemma idle_ok_forEach_task:
  "\<forall>b\<in>set (queue s). b < length (bots s) \<Longrightarrow> idle_ok (bots s) \<Longrightarrow>
   idle_ok (bots (forEach_task ts data s))"
proof (induction ts arbitrary: s)
  case Nil
  then show ?case by simp
next
  case (Cons t ts)
  from Cons.prems(1) have "\<forall>b\<in>set (queue (run_task t data s)). b < length (bots (run_task t data s))"
    by (simp add: frame_run_task)
  moreover from Cons.prems have "idle_ok (bots (run_task t data s))" by (rule idle_ok_run_task)
  ultimately have "idle_ok (bots (forEach_task ts data (run_task t data s)))" by (rule Cons.IH)
  then show ?case by simp
qed

lemma idle_ok_publish:
  "\<forall>b\<in>set (queue s). b < length (bots s) \<Longrightarrow> idle_ok (bots s) \<Longrightarrow>
   idle_ok (bots (publish data s))"
  using idle_ok_forEach_task [of "s\<lparr>published := published s @ [data]\<rparr>" "messageQueue s" data]
  by (simp add: publish.simps)

lemma idle_ok_create:
  assumes "\<forall>b\<in>set (queue s). b < length (bots s)" and "idle_ok (bots s)"
  shows "idle_ok (bots (snd (createNormalOrder s)))" and "idle_ok (bots (snd (createVipOrder s)))"
  using assms by (simp_all add: createNormalOrder_def createVipOrder_def Order_new_def idle_ok_publish)

lemma idle_ok_increase:
  assumes "idle_ok (bots s)"
  shows "idle_ok (bots (snd (increase params s)))"
proof -
  obtain ty where ty: "(case params of Some ty \<Rightarrow> ty | None \<Rightarrow> BOT_TYPE_NORMAL) = ty" by simp
  let ?v = "\<lparr>Bot.status = IDLE, uid = botUid s, type = ty, currentOrder = None,
             counterHandle = None, isDestroyed = False\<rparr>"
  let ?s1 = "s\<lparr>bots := bots s @ [?v], botUid := Suc (botUid s)\<rparr>"
  from assms have "idle_ok (bots ?s1)" by (simp add: idle_ok_append)
  then have "idle_ok (bots (Bot_processNextOrder (length (bots s)) ?s1))"
    by (rule idle_ok_Bot_processNextOrder) simp_all
  then show ?thesis by (simp add: increase_def Bot_new_def ty Let_def)
qed

lemma idle_ok_destroy:
  assumes "idle_ok (bots s)"
  shows "idle_ok (bots (destroy b s))"
  using assms
  by (simp add: destroy_def updateCache_def publish_updated clearTimeout_def Let_def
      idle_ok_update split: option.split)

lemma idle_ok_decrease: "idle_ok (bots s) \<Longrightarrow> idle_ok (bots (decrease s))"
  by (simp add: decrease_def idle_ok_destroy)

lemma idle_ok_tick:
  assumes "reachable s" and "idle_ok (bots s)"
  shows "idle_ok (bots (tick h s))"
proof (cases "timers s h")
  case None
  with assms show ?thesis by (simp add: tick_def)
next
  case (Some p)
  obtain b x where p: "p = (b, x)" by (cases p)
  from reachable_timer [OF assms(1) Some [unfolded p]]
  have b: "b < length (bots s)" and cur: "currentOrder (bots s ! b) = Some x"
    and ch: "counterHandle (bots s ! b) = Some h" by simp_all
  let ?s2 = "publish ORDER_COUNTER (s\<lparr>orders := (orders s)[x := (orders s ! x)
                      \<lparr>counter := counter (orders s ! x) - 1\<rparr>]\<rparr>)"
  let ?s4 = "Bot_completeOrder b (clearTimeout h ?s2)"
  have b4: "bots ?s4 = (bots s)[b := (bots s ! b)\<lparr>currentOrder := None\<rparr>]"
    using cur
    by (simp add: Bot_completeOrder_def completeOrder_def clearTimeout_def publish_counter
        publish_updated Let_def)
  with assms(2) b have "idle_ok (bots ?s4)" "b < length (bots ?s4)"
    "currentOrder (bots ?s4 ! b) = None" by (simp_all add: idle_ok_update)
  then have "idle_ok (bots (Bot_processNextOrder b ?s4))" by (rule idle_ok_Bot_processNextOrder)
  with assms(2) show ?thesis
    using ch by (simp add: tick_def Some p Let_def publish_counter)
qed

lemma idle_ok_engine: "idle_ok (bots (engine ou bu nh))"
  by (simp add: engine_def Controller_new_def subscribe_def OrderManager_new_def idle_ok_def)

lemma reachable_idle_ok: "reachable s \<Longrightarrow> idle_ok (bots s)"
proof (induction rule: reachable.induct)
  case (reachable_engine ou bu nh)
  show ?case by (rule idle_ok_engine)
next
  case (reachable_step s a)
  from reachable_step.hyps have "consistent s" by (rule reachable_consistent)
  then have q: "\<forall>b\<in>set (queue s). b < length (bots s)"
    by (simp add: consistent_def queue_ok_def)
  show ?case
  proof (cases a)
    case (Tick h)
    with reachable_step show ?thesis by (simp add: idle_ok_tick)
  qed (use reachable_step.IH q in \<open>simp_all add: idle_ok_create idle_ok_increase
        idle_ok_decrease subscribe_def\<close>)
qed


lemma timers_Bot_processNextOrder:
  "timers (Bot_processNextOrder b s) h = Some (b', x) \<Longrightarrow>
   timers s h = Some (b', x) \<or> b' = b"
  by (cases s rule: shift_next_cases)
     (simp_all add: Bot_processNextOrder.simps processNextOrder.simps publish_updated
        publish_counter updateOrder_def setInterval_def Let_def split: if_splits)

lemma timers_forEach_bot:
  "timers (forEach_bot bs s) h = Some (b', x) \<Longrightarrow>
   timers s h = Some (b', x) \<or> b' \<in> set bs"
proof (induction bs arbitrary: s)
  case Nil
  then show ?case by simp
next
  case (Cons b bs)
  let ?s = "if Bot.status (bots s ! b) = IDLE then Bot_processNextOrder b s else s"
  from Cons.prems have "timers (forEach_bot bs ?s) h = Some (b', x)" by simp
  then have "timers ?s h = Some (b', x) \<or> b' \<in> set bs" by (rule Cons.IH)
  then show ?case
    using timers_Bot_processNextOrder [of b s h b' x] by (auto split: if_splits)
qed

lemma managed_run_task:
  assumes "managed (timers s) (queue s)"
  shows "managed (timers (run_task t data s)) (queue (run_task t data s))"
proof (cases t)
  case ControllerTask
  have "managed (timers (forEach_bot (queue s) s)) (queue s)"
    unfolding managed_def
  proof (intro allI impI)
    fix h b x assume "timers (forEach_bot (queue s) s) h = Some (b, x)"
    then have "timers s h = Some (b, x) \<or> b \<in> set (queue s)" by (rule timers_forEach_bot)
    with assms show "b \<in> set (queue s)" unfolding managed_def by blast
  qed
  with assms ControllerTask show ?thesis by (simp add: frame_forEach_bot)
next
  case (ObserverTask k)
  with assms show ?thesis by simp
qed

lemma managed_forEach_task:
  "managed (timers s) (queue s) \<Longrightarrow>
   managed (timers (forEach_task ts data s)) (queue (forEach_task ts data s))"
  by (induction ts arbitrary: s) (simp_all add: managed_run_task)

lemma managed_publish:
  "managed (timers s) (queue s) \<Longrightarrow> managed (timers (publish data s)) (queue (publish data s))"
  using managed_forEach_task [of "s\<lparr>published := published s @ [data]\<rparr>" "messageQueue s" data]
  by (simp add: publish.simps)

lemma managed_create:
  assumes "managed (timers s) (queue s)"
  shows "managed (timers (snd (createNormalOrder s))) (queue (snd (createNormalOrder s)))"
    and "managed (timers (snd (createVipOrder s))) (queue (snd (createVipOrder s)))"
  using assms by (simp_all add: createNormalOrder_def createVipOrder_def Order_new_def managed_publish)

lemma managed_increase:
  assumes "managed (timers s) (queue s)"
  shows "managed (timers (snd (increase params s))) (queue (snd (increase params s)))"
proof -
  obtain ty where ty: "(case params of Some ty \<Rightarrow> ty | None \<Rightarrow> BOT_TYPE_NORMAL) = ty" by simp
  let ?b = "length (bots s)"
  let ?v = "\<lparr>Bot.status = IDLE, uid = botUid s, type = ty, currentOrder = None,
             counterHandle = None, isDestroyed = False\<rparr>"
  let ?s1 = "s\<lparr>bots := bots s @ [?v], botUid := Suc (botUid s)\<rparr>"
  let ?s2 = "Bot_processNextOrder ?b ?s1"
  have "managed (timers ?s2) (queue s @ [?b])"
    unfolding managed_def
  proof (intro allI impI)
    fix h b x assume "timers ?s2 h = Some (b, x)"
    then have "timers ?s1 h = Some (b, x) \<or> b = ?b" by (rule timers_Bot_processNextOrder)
    with assms show "b \<in> set (queue s @ [?b])" unfolding managed_def by auto
  qed
  then show ?thesis
    by (simp add: increase_def Bot_new_def ty Let_def frame_Bot_processNextOrder)
qed

lemma timers_destroy:
  "timers (destroy b s) =
     (case counterHandle (bots s ! b) of Some h \<Rightarrow> (timers s)(h := None) | None \<Rightarrow> timers s)"
  "queue (destroy b s) = queue s"
  by (simp_all add: destroy_def updateCache_def publish_updated clearTimeout_def Let_def
      split: option.split)

lemma timerless_destroy:
  assumes "timers_ok (bots s) (timers s)"
  shows "timerless b (timers (destroy b s))"
proof (cases "counterHandle (bots s ! b)")
  case None
  with timers_ok_unset_timerless [OF assms None] show ?thesis by (simp add: timers_destroy)
next
  case (Some h)
  with timers_ok_clear_timerless [OF assms Some] show ?thesis by (simp add: timers_destroy)
qed

lemma managed_decrease:
  assumes "consistent s" and "managed (timers s) (queue s)"
  shows "managed (timers (decrease s)) (queue (decrease s))"
proof (cases "queue s = []")
  case True
  with assms show ?thesis by (simp add: decrease_def)
next
  case False
  let ?b = "last (queue s)" and ?s = "s\<lparr>queue := butlast (queue s)\<rparr>"
  from assms(1) have "timers_ok (bots ?s) (timers ?s)" by (simp add: consistent_def)
  then have tl: "timerless ?b (timers (destroy ?b ?s))" by (rule timerless_destroy)
  have "managed (timers (destroy ?b ?s)) (butlast (queue s))"
    unfolding managed_def
  proof (intro allI impI)
    fix h b x assume t: "timers (destroy ?b ?s) h = Some (b, x)"
    with tl have ne: "b \<noteq> ?b" by (auto simp: timerless_def)
    from t have "timers s h = Some (b, x)"
      by (simp add: timers_destroy split: option.splits if_splits)
    with assms(2) have "b \<in> set (queue s)" unfolding managed_def by blast
    with ne False show "b \<in> set (butlast (queue s))"
      by (metis append_butlast_last_id in_set_conv_decomp_last last_snoc butlast_snoc
          Un_iff set_append empty_iff insert_iff list.set(1) list.set(2))
  qed
  with False show ?thesis by (simp add: decrease_def timers_destroy)
qed

lemma managed_tick:
  assumes "reachable s" and "managed (timers s) (queue s)"
  shows "managed (timers (tick h s)) (queue (tick h s))"
proof (cases "timers s h")
  case None
  with assms show ?thesis by (simp add: tick_def)
next
  case (Some p)
  obtain b x where p: "p = (b, x)" by (cases p)
  from reachable_timer [OF assms(1) Some [unfolded p]]
  have cur: "currentOrder (bots s ! b) = Some x"
    and ch: "counterHandle (bots s ! b) = Some h" by simp_all
  from assms(2) Some p have bq: "b \<in> set (queue s)" unfolding managed_def by blast
  let ?s2 = "publish ORDER_COUNTER (s\<lparr>orders := (orders s)[x := (orders s ! x)
                      \<lparr>counter := counter (orders s ! x) - 1\<rparr>]\<rparr>)"
  let ?s4 = "Bot_completeOrder b (clearTimeout h ?s2)"
  have t4: "timers ?s4 = (timers s)(h := None)" "queue ?s4 = queue s"
    using cur
    by (simp_all add: Bot_completeOrder_def completeOrder_def clearTimeout_def publish_counter
        publish_updated Let_def)
  have "managed (timers (Bot_processNextOrder b ?s4)) (queue s)"
    unfolding managed_def
  proof (intro allI impI)
    fix h' b' x' assume "timers (Bot_processNextOrder b ?s4) h' = Some (b', x')"
    then have "timers ?s4 h' = Some (b', x') \<or> b' = b" by (rule timers_Bot_processNextOrder)
    with assms(2) bq show "b' \<in> set (queue s)"
      unfolding managed_def t4 by (auto split: if_splits)
  qed
  with assms(2) show ?thesis
    using ch t4 by (simp add: tick_def Some p Let_def publish_counter frame_Bot_processNextOrder)
qed

lemma managed_engine: "managed (timers (engine ou bu nh)) (queue (engine ou bu nh))"
  by (simp add: engine_def Controller_new_def subscribe_def OrderManager_new_def managed_def)

lemma reachable_managed: "reachable s \<Longrightarrow> managed (timers s) (queue s)"
proof (induction rule: reachable.induct)
  case (reachable_engine ou bu nh)
  show ?case by (rule managed_engine)
next
  case (reachable_step s a)
  from reachable_step.hyps have c: "consistent s" by (rule reachable_consistent)
  show ?case
  proof (cases a)
    case (Tick h)
    with reachable_step show ?thesis by (simp add: managed_tick)
  qed (use reachable_step.IH c in \<open>simp_all add: managed_create managed_increase
        managed_decrease subscribe_def\<close>)
qed

section \<open>A recovered order and idle bots\<close>

lemma at_rest_step:
  assumes "at_rest s" and "creates_nothing a"
  shows "at_rest (step a s) \<and> queueCache (step a s) = queueCache s \<and>
     bots (step a s) = bots s \<and> orders (step a s) = orders s \<and>
     getOrderList (step a s) = getOrderList s"
proof (cases a)
  case Decrease
  show ?thesis
  proof (cases "queue s = []")
    case True
    with assms Decrease show ?thesis by (simp add: decrease_def)
  next
    case False
    let ?b = "last (queue s)"
    from False assms(1) have "?b < length (bots s)" "Bot.status (bots s ! ?b) = IDLE"
      by (simp_all add: at_rest_def)
    with assms(1) have cur: "currentOrder (bots s ! ?b) = None"
      by (simp add: at_rest_def idle_ok_def)
    from assms(1) have "(timers s)(h := None) = timers s" for h
      by (auto simp: at_rest_def)
    with cur have "decrease s = s\<lparr>queue := butlast (queue s)\<rparr>"
      using False
      by (simp add: decrease_def destroy_def clearTimeout_def Let_def split: option.split)
    with assms(1) Decrease show ?thesis
      by (auto simp: at_rest_def getOrderList_def dest: in_set_butlastD)
  qed
next
  case (Tick h)
  with assms(1) show ?thesis by (simp add: tick_def at_rest_def)
next
  case (Subscribe k)
  with assms(1) show ?thesis by (simp add: subscribe_def at_rest_def getOrderList_def)
qed (use assms(2) in simp_all)

lemma at_rest_run:
  "at_rest s \<Longrightarrow> \<forall>a\<in>set acts. creates_nothing a \<Longrightarrow>
   at_rest (run acts s) \<and> queueCache (run acts s) = queueCache s \<and>
   bots (run acts s) = bots s \<and> orders (run acts s) = orders s \<and>
   getOrderList (run acts s) = getOrderList s"
proof (induction acts arbitrary: s)
  case Nil
  then show ?case by (simp add: run_def)
next
  case (Cons a acts)
  from Cons.prems have a: "creates_nothing a" and r: "\<forall>a\<in>set acts. creates_nothing a"
    by simp_all
  from at_rest_step [OF Cons.prems(1) a] Cons.IH [of "step a s", OF _ r]
  show ?case by (simp add: run_def)
qed

lemma decrease_running:
  assumes "reachable s" and "queue s \<noteq> []"
    and "currentOrder (bots s ! last (queue s)) = Some x"
  shows "published (decrease s) = published s @ [ORDER_UPDATED]"
    and "queueCache (decrease s) = x # queueCache s"
    and "queue (decrease s) = butlast (queue s)"
    and "bots (decrease s) = (bots s)[last (queue s) := (bots s ! last (queue s))
          \<lparr>currentOrder := None, Bot.status := IDLE, isDestroyed := True\<rparr>]"
  using assms(2,3)
  by (simp_all add: decrease_def destroy_def updateCache_def publish_updated clearTimeout_def
      Let_def split: option.split)

lemma at_rest_decrease:
  assumes "reachable s" and "queue s \<noteq> []"
    and "currentOrder (bots s ! last (queue s)) = Some x"
    and "\<forall>b\<in>set (butlast (queue s)). Bot.status (bots s ! b) = IDLE"
  shows "at_rest (decrease s)"
proof -
  have r: "reachable (decrease s)" using reachable_step [OF assms(1), of Decrease] by simp
  then have io: "idle_ok (bots (decrease s))" by (rule reachable_idle_ok)
  from r have c: "consistent (decrease s)" by (rule reachable_consistent)
  then have qu: "queue_ok (bots (decrease s)) (queue (decrease s))"
    and ti: "timers_ok (bots (decrease s)) (timers (decrease s))" by (simp_all add: consistent_def)
  from assms(1) have "consistent s" by (rule reachable_consistent)
  then have "distinct (queue s)" by (simp add: consistent_def queue_ok_def)
  with assms(2) have nl: "last (queue s) \<notin> set (butlast (queue s))"
    by (metis append_butlast_last_id distinct_append distinct.simps(2) disjoint_iff
        list.set_intros(1))
  have idle: "\<forall>b\<in>set (queue (decrease s)).
      b < length (bots (decrease s)) \<and> Bot.status (bots (decrease s) ! b) = IDLE"
  proof
    fix b assume b: "b \<in> set (queue (decrease s))"
    with qu have "b < length (bots (decrease s))" by (simp add: queue_ok_def)
    moreover from b have bb: "b \<in> set (butlast (queue s))"
      by (simp add: decrease_running(3) [OF assms(1-3)])
    with nl have "b \<noteq> last (queue s)" by auto
    with bb assms(4) have "Bot.status (bots (decrease s) ! b) = IDLE"
      by (simp add: decrease_running(4) [OF assms(1-3)])
    ultimately show "b < length (bots (decrease s)) \<and> Bot.status (bots (decrease s) ! b) = IDLE"
      by simp
  qed
  have "timers (decrease s) h = None" for h
  proof (cases "timers (decrease s) h")
    case None
    then show ?thesis .
  next
    case (Some p)
    obtain b y where p: "p = (b, y)" by (cases p)
    from reachable_managed [OF r] Some p have "b \<in> set (queue (decrease s))"
      unfolding managed_def by blast
    with idle have "Bot.status (bots (decrease s) ! b) = IDLE" by simp
    moreover from ti Some p have "Bot.status (bots (decrease s) ! b) = RUN"
      unfolding timers_ok_def by blast
    ultimately show ?thesis by simp
  qed
  with io idle show ?thesis by (simp add: at_rest_def)
qed

lemma forEach_bot_other:
  "b \<notin> set bs \<Longrightarrow> bots (forEach_bot bs s) ! b = bots s ! b"
  by (induction bs arbitrary: s) (simp_all add: Bot_processNextOrder_other)

lemma forEach_task_observers_only:
  "forEach_task (map ObserverTask ks) data s =
     s\<lparr>observed := observed s @ map (\<lambda>k. (k, data, getOrderList s)) ks\<rparr>"
  using forEach_task_observers_first [of ks "[]" data s] by simp

lemma messageQueue_step:
  "messageQueue (step a s) =
     messageQueue s @ (case a of Subscribe k \<Rightarrow> [ObserverTask k] | _ \<Rightarrow> [])"
proof (cases a)
  case (Tick h)
  have "messageQueue (Bot_completeOrder b s') = messageQueue s'" for b s'
    by (simp add: Bot_completeOrder_def completeOrder_def publish_updated Let_def
        split: option.split)
  then show ?thesis
    using Tick
    by (simp add: tick_def Let_def publish_counter frame_Bot_processNextOrder clearTimeout_def
        split: option.split)
qed (simp_all add: createNormalOrder_def createVipOrder_def Order_new_def frame_publish
      increase_def Bot_new_def Let_def frame_Bot_processNextOrder decrease_def destroy_def
      updateCache_def publish_updated clearTimeout_def subscribe_def split: option.split)

lemma reachable_messageQueue:
  "reachable s \<Longrightarrow> \<exists>ks. messageQueue s = ControllerTask # map ObserverTask ks"
proof (induction rule: reachable.induct)
  case (reachable_engine ou bu nh)
  show ?case
    by (simp add: engine_def Controller_new_def subscribe_def OrderManager_new_def)
next
  case (reachable_step s a)
  then obtain ks where ks: "messageQueue s = ControllerTask # map ObserverTask ks" by blast
  have "messageQueue (step a s) =
      ControllerTask # map ObserverTask (ks @ (case a of Subscribe k \<Rightarrow> [k] | _ \<Rightarrow> []))"
    unfolding messageQueue_step ks by (cases a) simp_all
  then show ?case by blast
qed

lemma pickup_cached:
  assumes "queueCache s = x # qc" and "b < length (bots s)"
  shows "currentOrder (bots (Bot_processNextOrder b s) ! b) = Some x"
    and "Bot.status (bots (Bot_processNextOrder b s) ! b) = RUN"
    and "queueCache (Bot_processNextOrder b s) = qc"
proof -
  from assms(1) have sh: "shift_next s = (Some x, s\<lparr>queueCache := qc\<rparr>)"
    by (simp add: shift_next_def)
  from assms(2) have b: "b < length (bots (s\<lparr>queueCache := qc\<rparr>))" by simp
  from assms(2) show "currentOrder (bots (Bot_processNextOrder b s) ! b) = Some x"
    "Bot.status (bots (Bot_processNextOrder b s) ! b) = RUN"
    "queueCache (Bot_processNextOrder b s) = qc"
    by (simp_all add: Bot_processNextOrder_some [OF sh b])
qed

lemma increase_picks_cached:
  assumes "queueCache s = x # qc"
  shows "fst (increase params s) = length (bots s)"
    and "currentOrder (bots (snd (increase params s)) ! fst (increase params s)) = Some x"
    and "queueCache (snd (increase params s)) = qc"
proof -
  obtain ty where ty: "(case params of Some ty \<Rightarrow> ty | None \<Rightarrow> BOT_TYPE_NORMAL) = ty" by simp
  let ?v = "\<lparr>Bot.status = IDLE, uid = botUid s, type = ty, currentOrder = None,
             counterHandle = None, isDestroyed = False\<rparr>"
  let ?s1 = "s\<lparr>bots := bots s @ [?v], botUid := Suc (botUid s)\<rparr>"
  have 1: "queueCache ?s1 = x # qc" "length (bots s) < length (bots ?s1)"
    using assms by simp_all
  from pickup_cached [OF 1]
  show "fst (increase params s) = length (bots s)"
    "currentOrder (bots (snd (increase params s)) ! fst (increase params s)) = Some x"
    "queueCache (snd (increase params s)) = qc"
    by (simp_all add: increase_def Bot_new_def ty Let_def)
qed

lemma create_wakes_first:
  assumes "messageQueue s = ControllerTask # map ObserverTask ks"
    and "queue s = q # qs" and "q \<notin> set qs" and "q < length (bots s)"
    and "Bot.status (bots s ! q) = IDLE" and "queueCache s = x # qc"
  shows "currentOrder (bots (snd (createNormalOrder s)) ! q) = Some x"
    and "currentOrder (bots (snd (createVipOrder s)) ! q) = Some x"
proof -
  have gen: "currentOrder (bots (publish ORDER_ADDED s') ! q) = Some x"
    if s': "messageQueue s' = messageQueue s" "queue s' = queue s" "bots s' = bots s"
      "queueCache s' = queueCache s" for s'
  proof -
    let ?s = "s'\<lparr>published := published s' @ [ORDER_ADDED]\<rparr>"
    from s' assms(2,5) have idle: "hasIdleBot ?s" by (simp add: hasIdleBot_def)
    from s' assms(4,6) have "currentOrder (bots (Bot_processNextOrder q ?s) ! q) = Some x"
      by (intro pickup_cached(1) [of _ _ qc]) simp_all
    with assms(3) have "currentOrder (bots (forEach_bot qs (Bot_processNextOrder q ?s)) ! q) = Some x"
      by (simp add: forEach_bot_other)
    with s' assms(2,5) have "currentOrder (bots (forEach_bot (queue ?s) ?s) ! q) = Some x"
      by simp
    with idle s' assms(1) show ?thesis
      by (simp add: publish.simps forEach_task_observers_only)
  qed
  show "currentOrder (bots (snd (createNormalOrder s)) ! q) = Some x"
    by (simp add: createNormalOrder_def Order_new_def gen)
  show "currentOrder (bots (snd (createVipOrder s)) ! q) = Some x"
    by (simp add: createVipOrder_def Order_new_def gen)
qed

text \<open>
  C10 as stated: after a running bot is destroyed while the other managed bots are
  idle, the recovered order stays in \<open>queueCache\<close> until an order is created or a bot
  finishes its order. In \<open>vip_done_normal_running\<close> bot 0 is idle and bot 1, the
  newest, runs order 1; \<open>running_bot_destroyed\<close> is the state after
  \<open>Controller.decrease\<close>, with order 1 in \<open>queueCache\<close> and bot 0 still idle. Adding a
  bot now creates no order (there are two order objects before and after) and no bot
  finishes anything (\<open>queueComplete\<close> is unchanged), yet the constructor of the new
  bot 2 picks order 1 up at once.
\<close>

theorem new_bot_takes_recovered_order:
  "queue vip_done_normal_running = [0, 1] \<and>
   Bot.status (bots vip_done_normal_running ! 0) = IDLE \<and>
   Bot.status (bots vip_done_normal_running ! 1) = RUN \<and>
   currentOrder (bots vip_done_normal_running ! 1) = Some 1 \<and>
   queueCache running_bot_destroyed = [1] \<and>
   queue running_bot_destroyed = [0] \<and>
   Bot.status (bots running_bot_destroyed ! 0) = IDLE \<and>
   orders (snd (increase None running_bot_destroyed)) ! 0 = orders running_bot_destroyed ! 0 \<and>
   length (orders (snd (increase None running_bot_destroyed))) = 2 \<and>
   length (orders running_bot_destroyed) = 2 \<and>
   queueComplete (snd (increase None running_bot_destroyed)) = queueComplete running_bot_destroyed \<and>
   fst (increase None running_bot_destroyed) = 2 \<and>
   currentOrder (bots (snd (increase None running_bot_destroyed)) ! 2) = Some 1 \<and>
   Bot.status (bots (snd (increase None running_bot_destroyed)) ! 2) = RUN \<and>
   queueCache (snd (increase None running_bot_destroyed)) = []"
  by (simp add: running_bot_destroyed_def vip_done_normal_running_def engine_defs)

text \<open>
  C10 as the code has it. Let the newest managed bot hold \<open>x\<close> and all other managed
  bots be idle, in a state the engine reaches. \<open>Controller.decrease\<close> then publishes
  \<open>ORDER_UPDATED\<close> and nothing else, an event on which the controller's subscriber
  does nothing. After it, and after any further actions that create neither an order
  nor a bot (ticks, \<open>decrease\<close>, subscriptions), \<open>x\<close> is still at the front of
  \<open>queueCache\<close>, no bot holds it, no interval is active and every managed bot is idle.
  The order is picked up by what comes first of: a new bot (its constructor takes \<open>x\<close>),
  or a new order of either kind (the first managed bot, if there is one, takes \<open>x\<close>).
\<close>

theorem recovered_order_waits:
  assumes "reachable s" and "queue s \<noteq> []"
    and "currentOrder (bots s ! last (queue s)) = Some x"
    and "\<forall>b\<in>set (butlast (queue s)). Bot.status (bots s ! b) = IDLE"
    and "\<forall>a\<in>set acts. creates_nothing a"
  shows "published (decrease s) = published s @ [ORDER_UPDATED] \<and>
     (data \<noteq> ORDER_ADDED \<longrightarrow> run_task ControllerTask data (decrease s) = decrease s) \<and>
     queueCache (run acts (decrease s)) = x # queueCache s \<and>
     at_rest (run acts (decrease s)) \<and>
     (\<forall>b<length (bots (run acts (decrease s))).
        currentOrder (bots (run acts (decrease s)) ! b) \<noteq> Some x) \<and>
     currentOrder (bots (snd (increase params (run acts (decrease s)))) !
        fst (increase params (run acts (decrease s)))) = Some x \<and>
     (queue (run acts (decrease s)) \<noteq> [] \<longrightarrow>
        currentOrder (bots (snd (createNormalOrder (run acts (decrease s)))) !
          hd (queue (run acts (decrease s)))) = Some x \<and>
        currentOrder (bots (snd (createVipOrder (run acts (decrease s)))) !
          hd (queue (run acts (decrease s)))) = Some x)"
proof -
  let ?d = "decrease s" and ?s = "run acts (decrease s)"
  have rd: "reachable ?d" using reachable_step [OF assms(1), of Decrease] by simp
  then have rs: "reachable ?s" by (rule reachable_run)
  have ar: "at_rest ?d" using assms(1-4) by (rule at_rest_decrease)
  from at_rest_run [OF ar assms(5)]
  have ars: "at_rest ?s" and qc: "queueCache ?s = queueCache ?d" and bs: "bots ?s = bots ?d"
    and os: "orders ?s = orders ?d" and gl: "getOrderList ?s = getOrderList ?d" by simp_all
  have qcd: "queueCache ?d = x # queueCache s"
    using assms(1-3) by (rule decrease_running(2))
  then have "x \<in> set (getOrderList ?d)" by (simp add: getOrderList_def)
  moreover from rd have "consistent ?d" by (rule reachable_consistent)
  then have "held_ok (getOrderList ?d) (length (orders ?d)) (bots ?d)"
    by (simp add: consistent_def)
  ultimately have free: "\<forall>b<length (bots ?s). currentOrder (bots ?s ! b) \<noteq> Some x"
    unfolding bs held_ok_def by blast
  from qc qcd have qcs: "queueCache ?s = x # queueCache s" by simp
  have inc: "currentOrder (bots (snd (increase params ?s)) ! fst (increase params ?s)) = Some x"
    using qcs by (rule increase_picks_cached(2))
  have cre: "currentOrder (bots (snd (createNormalOrder ?s)) ! hd (queue ?s)) = Some x \<and>
      currentOrder (bots (snd (createVipOrder ?s)) ! hd (queue ?s)) = Some x"
    if ne: "queue ?s \<noteq> []"
  proof -
    from ne obtain q qs where q: "queue ?s = q # qs" by (cases "queue ?s") auto
    from rs obtain ks where ks: "messageQueue ?s = ControllerTask # map ObserverTask ks"
      using reachable_messageQueue by blast
    from rs have "consistent ?s" by (rule reachable_consistent)
    then have "distinct (queue ?s)" by (simp add: consistent_def queue_ok_def)
    with q have nq: "q \<notin> set qs" by simp
    from ars q have b: "q < length (bots ?s)" and i: "Bot.status (bots ?s ! q) = IDLE"
      by (simp_all add: at_rest_def)
    from create_wakes_first [OF ks q nq b i qcs] q show ?thesis by simp
  qed
  have "published ?d = published s @ [ORDER_UPDATED]"
    using assms(1-3) by (rule decrease_running(1))
  with qcs ars free inc cre show ?thesis by simp
qed

text \<open>
  In \<open>vip_done_normal_running\<close> the hypotheses hold with \<open>x = 1\<close>. After the
  \<open>decrease\<close>, two ticks and a subscription, order 1 still waits; a VIP order created
  then makes bot 0 take order 1.
\<close>

theorem recovered_order_waits_witness:
  "reachable vip_done_normal_running \<and>
   queue vip_done_normal_running \<noteq> [] \<and>
   currentOrder (bots vip_done_normal_running ! last (queue vip_done_normal_running)) = Some 1 \<and>
   butlast (queue vip_done_normal_running) = [0] \<and>
   Bot.status (bots vip_done_normal_running ! 0) = IDLE \<and>
   creates_nothing (Tick 2) \<and> creates_nothing (Subscribe 3) \<and> creates_nothing (Tick 1) \<and>
   published running_bot_destroyed = published vip_done_normal_running @ [ORDER_UPDATED] \<and>
   queueCache (run [Tick 2, Subscribe 3, Tick 1] running_bot_destroyed) = [1] \<and>
   queue (run [Tick 2, Subscribe 3, Tick 1] running_bot_destroyed) = [0] \<and>
   currentOrder (bots (snd (createVipOrder
     (run [Tick 2, Subscribe 3, Tick 1] running_bot_destroyed))) ! 0) = Some 1"
proof -
  have r: "reachable vip_done_normal_running"
    unfolding vip_done_normal_running_def by (rule reachable_run) (rule reachable_init)
  have q: "queue vip_done_normal_running = [0, 1]"
    and c: "currentOrder (bots vip_done_normal_running ! 1) = Some 1"
    and i: "Bot.status (bots vip_done_normal_running ! 0) = IDLE"
    and e: "queueCache vip_done_normal_running = []"
    by (simp_all add: vip_done_normal_running_def engine_defs)
  have q': "queue (run [Tick 2, Subscribe 3, Tick 1] running_bot_destroyed) = [0]"
    by (simp add: running_bot_destroyed_def vip_done_normal_running_def engine_defs)
  from q have h2: "queue vip_done_normal_running \<noteq> []" by simp
  from q c have h3: "currentOrder (bots vip_done_normal_running !
      last (queue vip_done_normal_running)) = Some 1" by simp
  from q i have h4: "\<forall>b\<in>set (butlast (queue vip_done_normal_running)).
      Bot.status (bots vip_done_normal_running ! b) = IDLE" by simp
  have h5: "\<forall>a\<in>set [Tick 2, Subscribe 3, Tick 1]. creates_nothing a" by simp
  from recovered_order_waits [OF r h2 h3 h4 h5, of ORDER_UPDATED None]
  show ?thesis
    using r h2 h3 q i e q' by (simp add: running_bot_destroyed_def)
qed

section \<open>The order list a subscriber sees after the controller\<close>

lemma pending_shift_next:
  "pending (snd (shift_next s)) = tl (pending s) \<and>
   queueComplete (snd (shift_next s)) = queueComplete s"
  by (simp add: shift_next_def pending_def split: list.split)

lemma pending_Bot_processNextOrder:
  "pending (Bot_processNextOrder b s) = tl (pending s) \<and>
   queueComplete (Bot_processNextOrder b s) = queueComplete s"
proof (cases "shift_next s")
  case (Pair r s1)
  from pending_shift_next [of s] Pair
  have p: "pending s1 = tl (pending s)" "queueComplete s1 = queueComplete s" by simp_all
  show ?thesis
  proof (cases r)
    case None
    with Pair p show ?thesis
      by (simp add: Bot_processNextOrder.simps processNextOrder.simps pending_def)
  next
    case (Some x)
    with Pair p show ?thesis
      by (simp add: Bot_processNextOrder.simps processNextOrder.simps publish_updated
          publish_counter updateOrder_def setInterval_def Let_def pending_def)
  qed
qed

lemma pending_fold:
  "pending (fold Bot_processNextOrder bs s) = drop (length bs) (pending s) \<and>
   queueComplete (fold Bot_processNextOrder bs s) = queueComplete s"
  by (induction bs arbitrary: s) (simp_all add: pending_Bot_processNextOrder drop_Suc)

lemma getOrderList_pending: "getOrderList s = pending s @ queueComplete s"
  by (simp add: getOrderList_def pending_def)

lemma controller_task_fold:
  assumes "distinct (queue s)"
  shows "run_task ControllerTask ORDER_ADDED s = fold Bot_processNextOrder (idle_bots s) s"
proof (cases "hasIdleBot s")
  case True
  with assms show ?thesis by (simp add: forEach_bot_fold idle_bots_def)
next
  case False
  then show ?thesis by (simp add: hasIdleBot_filter idle_bots_def)
qed

lemma ORDER_ADDED_after_controller:
  assumes "messageQueue s = ControllerTask # map ObserverTask ks" and "distinct (queue s)"
  shows "\<exists>ys. deliveries ORDER_ADDED ys = [] \<and>
     observed (publish ORDER_ADDED s) = observed s @ ys @
       map (\<lambda>k. (k, ORDER_ADDED,
              drop (length (idle_bots s)) (pending s) @ queueComplete s)) ks"
proof -
  let ?s1 = "s\<lparr>published := published s @ [ORDER_ADDED]\<rparr>"
  let ?s2 = "run_task ControllerTask ORDER_ADDED ?s1"
  have idle: "idle_bots ?s1 = idle_bots s" by (simp add: idle_bots_def)
  from assms(2) have "?s2 = fold Bot_processNextOrder (idle_bots s) ?s1"
    using controller_task_fold [of ?s1] idle by simp
  with pending_fold [of "idle_bots s" ?s1]
  have g: "getOrderList ?s2 = drop (length (idle_bots s)) (pending s) @ queueComplete s"
    by (simp add: getOrderList_pending) (simp add: pending_def)
  obtain ys where ys: "observed ?s2 = observed ?s1 @ ys" "deliveries ORDER_ADDED ys = observers [ControllerTask]"
    using run_task_observed [of ControllerTask ORDER_ADDED ?s1] by blast
  have "publish ORDER_ADDED s = forEach_task (map ObserverTask ks) ORDER_ADDED ?s2"
    by (simp add: publish.simps assms(1))
  then have "observed (publish ORDER_ADDED s) =
      observed ?s2 @ map (\<lambda>k. (k, ORDER_ADDED, getOrderList ?s2)) ks"
    by (simp add: forEach_task_observers_only)
  with ys g have "deliveries ORDER_ADDED ys = [] \<and>
     observed (publish ORDER_ADDED s) = observed s @ ys @
       map (\<lambda>k. (k, ORDER_ADDED,
              drop (length (idle_bots s)) (pending s) @ queueComplete s)) ks"
    by simp
  then show ?thesis by blast
qed

lemma in_drop_snoc:
  assumes "x \<notin> set xs" and "x \<notin> set zs"
  shows "x \<in> set (drop m (xs @ x # zs)) \<longleftrightarrow> m \<le> length xs"
proof (cases "m \<le> length xs")
  case True
  then show ?thesis by simp
next
  case False
  then have "drop m (xs @ x # zs) = drop (m - length xs - 1) zs"
    by (simp add: drop_Cons')
  with assms(2) False show ?thesis by (auto dest: in_set_dropD)
qed

lemma create_after_controller:
  assumes "reachable s"
  shows "\<exists>ys. deliveries ORDER_ADDED ys = [] \<and>
         observed (snd (createNormalOrder s)) = observed s @ ys @
           map (\<lambda>k. (k, ORDER_ADDED,
                  drop (length (idle_bots s)) (pending s @ [fst (createNormalOrder s)]) @
                  queueComplete s))
             (observers (messageQueue s))"
    and "fst (createNormalOrder s) \<in>
         set (drop (length (idle_bots s)) (pending s @ [fst (createNormalOrder s)]) @
              queueComplete s) \<longleftrightarrow>
       length (idle_bots s) \<le> length (pending s)"
    and "\<exists>ys. deliveries ORDER_ADDED ys = [] \<and>
         observed (snd (createVipOrder s)) = observed s @ ys @
           map (\<lambda>k. (k, ORDER_ADDED,
                  drop (length (idle_bots s))
                    ((queueCache s @ queueVipOrder s) @
                     fst (createVipOrder s) # queueNormalOrder s) @
                  queueComplete s))
             (observers (messageQueue s))"
    and "fst (createVipOrder s) \<in>
         set (drop (length (idle_bots s))
                ((queueCache s @ queueVipOrder s) @
                 fst (createVipOrder s) # queueNormalOrder s) @
              queueComplete s) \<longleftrightarrow>
       length (idle_bots s) \<le> length (queueCache s) + length (queueVipOrder s)"
proof -
  let ?n = "length (orders s)"
  from assms obtain ks where ks: "messageQueue s = ControllerTask # map ObserverTask ks"
    using reachable_messageQueue by blast
  have "observers (map ObserverTask ks) = ks" by (induction ks) simp_all
  with ks have obs: "observers (messageQueue s) = ks" by simp
  from assms have c: "consistent s" by (rule reachable_consistent)
  then have d: "distinct (queue s)" by (simp add: consistent_def queue_ok_def)
  from c have "\<forall>x\<in>set (getOrderList s). x < ?n" by (simp add: consistent_def stored_ok_def)
  then have fresh: "?n \<notin> set (queueCache s)" "?n \<notin> set (queueVipOrder s)"
    "?n \<notin> set (queueNormalOrder s)" "?n \<notin> set (queueComplete s)"
    by (auto simp: getOrderList_def)
  have fn: "fst (createNormalOrder s) = ?n" and fv: "fst (createVipOrder s) = ?n"
    by (simp_all add: createNormalOrder_def createVipOrder_def Order_new_def)
  let ?sn = "s\<lparr>orders := orders s @
      [\<lparr>Order.status = PENDING, uid = orderUid s, orderType = ORDER_TYPE_NORMAL, counter = 0\<rparr>],
      orderUid := Suc (orderUid s),
      queueNormalOrder := queueNormalOrder s @ [?n]\<rparr>"
  let ?sv = "s\<lparr>orders := orders s @
      [\<lparr>Order.status = PENDING, uid = orderUid s, orderType = ORDER_TYPE_VIP, counter = 0\<rparr>],
      orderUid := Suc (orderUid s),
      queueVipOrder := queueVipOrder s @ [?n]\<rparr>"
  have n: "snd (createNormalOrder s) = publish ORDER_ADDED ?sn"
    and v: "snd (createVipOrder s) = publish ORDER_ADDED ?sv"
    by (simp_all add: createNormalOrder_def createVipOrder_def Order_new_def)
  have pn: "pending ?sn = pending s @ [?n]" "idle_bots ?sn = idle_bots s"
    and pv: "pending ?sv = (queueCache s @ queueVipOrder s) @ ?n # queueNormalOrder s"
      "idle_bots ?sv = idle_bots s"
    by (simp_all add: pending_def idle_bots_def)
  from ORDER_ADDED_after_controller [of ?sn ks] ks d
  show "\<exists>ys. deliveries ORDER_ADDED ys = [] \<and>
         observed (snd (createNormalOrder s)) = observed s @ ys @
           map (\<lambda>k. (k, ORDER_ADDED,
                  drop (length (idle_bots s)) (pending s @ [fst (createNormalOrder s)]) @
                  queueComplete s))
             (observers (messageQueue s))"
    unfolding n fn obs pn by simp
  from ORDER_ADDED_after_controller [of ?sv ks] ks d
  show "\<exists>ys. deliveries ORDER_ADDED ys = [] \<and>
         observed (snd (createVipOrder s)) = observed s @ ys @
           map (\<lambda>k. (k, ORDER_ADDED,
                  drop (length (idle_bots s))
                    ((queueCache s @ queueVipOrder s) @
                     fst (createVipOrder s) # queueNormalOrder s) @
                  queueComplete s))
             (observers (messageQueue s))"
    unfolding v fv obs pv by simp
  from fresh have "?n \<notin> set (pending s)" by (simp add: pending_def)
  with in_drop_snoc [of ?n "pending s" "[]" "length (idle_bots s)"] fresh(4)
  show "fst (createNormalOrder s) \<in>
         set (drop (length (idle_bots s)) (pending s @ [fst (createNormalOrder s)]) @
              queueComplete s) \<longleftrightarrow>
       length (idle_bots s) \<le> length (pending s)"
    unfolding fn by simp
  from fresh have "?n \<notin> set (queueCache s @ queueVipOrder s)" by simp
  with in_drop_snoc [of ?n "queueCache s @ queueVipOrder s" "queueNormalOrder s"
      "length (idle_bots s)"] fresh(3,4)
  show "fst (createVipOrder s) \<in>
         set (drop (length (idle_bots s))
                ((queueCache s @ queueVipOrder s) @
                 fst (createVipOrder s) # queueNormalOrder s) @
              queueComplete s) \<longleftrightarrow>
       length (idle_bots s) \<le> length (queueCache s) + length (queueVipOrder s)"
    unfolding fv by simp
qed

lemma publish_delivery:
  "(\<exists>ys. observed (publish data s) = observed s @ ys \<and>
      deliveries data ys = observers (messageQueue s)) \<and>
   (data \<noteq> ORDER_ADDED \<or> \<not> hasIdleBot s \<longrightarrow>
      observed (publish data s) =
        observed s @ map (\<lambda>k. (k, data, getOrderList s)) (observers (messageQueue s))) \<and>
   (\<not> hasIdleBot s \<longrightarrow>
      observed (snd (createNormalOrder s)) =
        observed s @
        map (\<lambda>k. (k, ORDER_ADDED, queueCache s @ queueVipOrder s @
                 (queueNormalOrder s @ [fst (createNormalOrder s)]) @ queueComplete s))
          (observers (messageQueue s)) \<and>
      observed (snd (createVipOrder s)) =
        observed s @
        map (\<lambda>k. (k, ORDER_ADDED, queueCache s @
                 (queueVipOrder s @ [fst (createVipOrder s)]) @
                 queueNormalOrder s @ queueComplete s))
          (observers (messageQueue s))) \<and>
   (messageQueue s = map ObserverTask ks @ rest \<longrightarrow>
      (\<exists>ys. observed (snd (createNormalOrder s)) =
         observed s @
         map (\<lambda>k. (k, ORDER_ADDED, queueCache s @ queueVipOrder s @
                  (queueNormalOrder s @ [fst (createNormalOrder s)]) @ queueComplete s)) ks @
         ys) \<and>
      (\<exists>ys. observed (snd (createVipOrder s)) =
         observed s @
         map (\<lambda>k. (k, ORDER_ADDED, queueCache s @
                  (queueVipOrder s @ [fst (createVipOrder s)]) @
                  queueNormalOrder s @ queueComplete s)) ks @
         ys))"
proof (intro conjI impI)
  show "\<exists>ys. observed (publish data s) = observed s @ ys \<and>
      deliveries data ys = observers (messageQueue s)"
    using forEach_task_observed [of "messageQueue s" data "s\<lparr>published := published s @ [data]\<rparr>"]
    by (simp add: publish.simps)
next
  assume "data \<noteq> ORDER_ADDED \<or> \<not> hasIdleBot s"
  then show "observed (publish data s) =
        observed s @ map (\<lambda>k. (k, data, getOrderList s)) (observers (messageQueue s))"
    by (auto simp: publish_quiet publish_no_idle)
next
  assume "\<not> hasIdleBot s"
  then have n: "\<not> hasIdleBot (s\<lparr>orders := os, orderUid := u, queueNormalOrder := qn\<rparr>)"
    and v: "\<not> hasIdleBot (s\<lparr>orders := os, orderUid := u, queueVipOrder := qv\<rparr>)"
    for os u qn qv by (simp_all add: hasIdleBot_def)
  show "observed (snd (createNormalOrder s)) =
        observed s @
        map (\<lambda>k. (k, ORDER_ADDED, queueCache s @ queueVipOrder s @
                 (queueNormalOrder s @ [fst (createNormalOrder s)]) @ queueComplete s))
          (observers (messageQueue s))"
    by (simp add: createNormalOrder_def Order_new_def publish_no_idle [OF n])
       (simp add: getOrderList_def)
  show "observed (snd (createVipOrder s)) =
        observed s @
        map (\<lambda>k. (k, ORDER_ADDED, queueCache s @
                 (queueVipOrder s @ [fst (createVipOrder s)]) @
                 queueNormalOrder s @ queueComplete s))
          (observers (messageQueue s))"
    by (simp add: createVipOrder_def Order_new_def publish_no_idle [OF v])
       (simp add: getOrderList_def)
next
  assume m: "messageQueue s = map ObserverTask ks @ rest"
  let ?sn = "s\<lparr>orders := orders s @
      [\<lparr>Order.status = PENDING, uid = orderUid s, orderType = ORDER_TYPE_NORMAL, counter = 0\<rparr>],
      orderUid := Suc (orderUid s),
      queueNormalOrder := queueNormalOrder s @ [length (orders s)],
      published := published s @ [ORDER_ADDED]\<rparr>"
  let ?sv = "s\<lparr>orders := orders s @
      [\<lparr>Order.status = PENDING, uid = orderUid s, orderType = ORDER_TYPE_VIP, counter = 0\<rparr>],
      orderUid := Suc (orderUid s),
      queueVipOrder := queueVipOrder s @ [length (orders s)],
      published := published s @ [ORDER_ADDED]\<rparr>"
  have n: "snd (createNormalOrder s) = forEach_task rest ORDER_ADDED
      (?sn\<lparr>observed := observed ?sn @ map (\<lambda>k. (k, ORDER_ADDED, getOrderList ?sn)) ks\<rparr>)"
    by (simp add: createNormalOrder_def Order_new_def publish.simps m
        forEach_task_observers_first)
  have v: "snd (createVipOrder s) = forEach_task rest ORDER_ADDED
      (?sv\<lparr>observed := observed ?sv @ map (\<lambda>k. (k, ORDER_ADDED, getOrderList ?sv)) ks\<rparr>)"
    by (simp add: createVipOrder_def Order_new_def publish.simps m
        forEach_task_observers_first)
  have fn: "fst (createNormalOrder s) = length (orders s)"
    and fv: "fst (createVipOrder s) = length (orders s)"
    by (simp_all add: createNormalOrder_def createVipOrder_def Order_new_def)
  show "\<exists>ys. observed (snd (createNormalOrder s)) =
         observed s @
         map (\<lambda>k. (k, ORDER_ADDED, queueCache s @ queueVipOrder s @
                  (queueNormalOrder s @ [fst (createNormalOrder s)]) @ queueComplete s)) ks @
         ys"
    unfolding n fn
    using forEach_task_grows [of rest ORDER_ADDED
      "?sn\<lparr>observed := observed ?sn @ map (\<lambda>k. (k, ORDER_ADDED, getOrderList ?sn)) ks\<rparr>"]
    by (simp add: getOrderList_def)
  show "\<exists>ys. observed (snd (createVipOrder s)) =
         observed s @
         map (\<lambda>k. (k, ORDER_ADDED, queueCache s @
                  (queueVipOrder s @ [fst (createVipOrder s)]) @
                  queueNormalOrder s @ queueComplete s)) ks @
         ys"
    unfolding v fv
    using forEach_task_grows [of rest ORDER_ADDED
      "?sv\<lparr>observed := observed ?sv @ map (\<lambda>k. (k, ORDER_ADDED, getOrderList ?sv)) ks\<rparr>"]
    by (simp add: getOrderList_def)
qed


text \<open>
  C7 as stated: a subscriber that is called with \<open>ORDER_ADDED\<close> during
  \<open>createNormalOrder\<close> finds the new order in \<open>getOrderList\<close>. In
  \<open>idle_bot_and_observer\<close> the controller subscribed first and has an idle bot. Its
  subscriber runs first and hands the new order 0 to the bot, so that observer 7 is
  called with \<open>ORDER_UPDATED\<close> and \<open>ORDER_COUNTER\<close> from inside, and with
  \<open>ORDER_ADDED\<close> last, when \<open>getOrderList\<close> is empty: the order is in the bot's hands.
\<close>

theorem ORDER_ADDED_after_pickup:
  "messageQueue idle_bot_and_observer = [ControllerTask, ObserverTask 7] \<and>
   observed idle_bot_and_observer = [] \<and>
   fst (createNormalOrder idle_bot_and_observer) = 0 \<and>
   observed (snd (createNormalOrder idle_bot_and_observer)) =
     [(7, ORDER_UPDATED, []), (7, ORDER_COUNTER, []), (7, ORDER_ADDED, [])] \<and>
   currentOrder (bots (snd (createNormalOrder idle_bot_and_observer)) ! 0) = Some 0"
  by (simp add: idle_bot_and_observer_def engine_defs)

text \<open>
  C7 as the code has it. \<open>publish\<close> calls the subscribers one after the other in
  the order of their registration, before it returns: for every state and event, the
  new entries of the observers' log for that event are those of the registered
  observers, in order; and when the event is not \<open>ORDER_ADDED\<close>, or no managed bot is
  idle, the log grows by exactly these entries, all with the order list of the moment
  \<open>publish\<close> was called. When \<open>createNormalOrder\<close> or \<open>createVipOrder\<close> publishes,
  the new order is in its queue. A subscriber called with \<open>ORDER_ADDED\<close> finds it in
  \<open>getOrderList\<close> if no managed bot is idle, or if it subscribed before the controller
  (more precisely, before every subscriber that is not an observer).

  In a state the engine reaches, every observer has subscribed after the controller.
  It is called with \<open>ORDER_ADDED\<close> when the controller has let each idle managed bot
  take the first order that waits, and after the \<open>ORDER_UPDATED\<close> and \<open>ORDER_COUNTER\<close>
  of these pickups. The order list it sees is what is left of the pending orders
  (with the new one at its place) when as many as there are idle managed bots are
  taken from the front, followed by the completed orders. It contains the new order
  exactly if the idle managed bots are at most as many as the orders that wait ahead
  of the new one: all pending orders for a normal order, those of \<open>queueCache\<close> and
  \<open>queueVipOrder\<close> for a VIP order. Otherwise a bot holds the new order.
\<close>

theorem publish_in_registration_order:
  "(\<exists>ys. observed (publish data s) = observed s @ ys \<and>
      deliveries data ys = observers (messageQueue s)) \<and>
   (data \<noteq> ORDER_ADDED \<or> \<not> hasIdleBot s \<longrightarrow>
      observed (publish data s) =
        observed s @ map (\<lambda>k. (k, data, getOrderList s)) (observers (messageQueue s))) \<and>
   (\<not> hasIdleBot s \<longrightarrow>
      observed (snd (createNormalOrder s)) =
        observed s @
        map (\<lambda>k. (k, ORDER_ADDED, queueCache s @ queueVipOrder s @
                 (queueNormalOrder s @ [fst (createNormalOrder s)]) @ queueComplete s))
          (observers (messageQueue s)) \<and>
      observed (snd (createVipOrder s)) =
        observed s @
        map (\<lambda>k. (k, ORDER_ADDED, queueCache s @
                 (queueVipOrder s @ [fst (createVipOrder s)]) @
                 queueNormalOrder s @ queueComplete s))
          (observers (messageQueue s))) \<and>
   (messageQueue s = map ObserverTask ks @ rest \<longrightarrow>
      (\<exists>ys. observed (snd (createNormalOrder s)) =
         observed s @
         map (\<lambda>k. (k, ORDER_ADDED, queueCache s @ queueVipOrder s @
                  (queueNormalOrder s @ [fst (createNormalOrder s)]) @ queueComplete s)) ks @
         ys) \<and>
      (\<exists>ys. observed (snd (createVipOrder s)) =
         observed s @
         map (\<lambda>k. (k, ORDER_ADDED, queueCache s @
                  (queueVipOrder s @ [fst (createVipOrder s)]) @
                  queueNormalOrder s @ queueComplete s)) ks @
         ys)) \<and>
   (reachable s \<longrightarrow>
      (\<exists>ys. deliveries ORDER_ADDED ys = [] \<and>
         observed (snd (createNormalOrder s)) = observed s @ ys @
           map (\<lambda>k. (k, ORDER_ADDED,
                  drop (length (idle_bots s)) (pending s @ [fst (createNormalOrder s)]) @
                  queueComplete s))
             (observers (messageQueue s))) \<and>
      (fst (createNormalOrder s) \<in>
         set (drop (length (idle_bots s)) (pending s @ [fst (createNormalOrder s)]) @
              queueComplete s) \<longleftrightarrow>
       length (idle_bots s) \<le> length (pending s)) \<and>
      (\<exists>ys. deliveries ORDER_ADDED ys = [] \<and>
         observed (snd (createVipOrder s)) = observed s @ ys @
           map (\<lambda>k. (k, ORDER_ADDED,
                  drop (length (idle_bots s))
                    ((queueCache s @ queueVipOrder s) @
                     fst (createVipOrder s) # queueNormalOrder s) @
                  queueComplete s))
             (observers (messageQueue s))) \<and>
      (fst (createVipOrder s) \<in>
         set (drop (length (idle_bots s))
                ((queueCache s @ queueVipOrder s) @
                 fst (createVipOrder s) # queueNormalOrder s) @
              queueComplete s) \<longleftrightarrow>
       length (idle_bots s) \<le> length (queueCache s) + length (queueVipOrder s)))"
  using publish_delivery [of data s ks rest] create_after_controller [of s] by blast

text \<open>
  With two observers and no bot, both see the new order, in the order they
  subscribed. An observer that subscribed before the controller sees the new order
  before the controller's idle bot takes it. In \<open>recovered_and_observer\<close> one bot is
  idle and one order waits ahead of any new one: the bot takes the waiting order 1, and
  the observer sees the new order 2, be it a VIP or a normal order. In
  \<open>two_idle_and_observer\<close> nothing waits and two bots are idle: the first takes the new
  order, and the observer sees an empty list.
\<close>

theorem publish_in_registration_order_witness:
  "(\<not> hasIdleBot (run [Subscribe 7, Subscribe 8] init) \<and>
    observers (messageQueue (run [Subscribe 7, Subscribe 8] init)) = [7, 8] \<and>
    observed (publish ORDER_ADDED (run [Subscribe 7, Subscribe 8] init)) =
      [(7, ORDER_ADDED, []), (8, ORDER_ADDED, [])] \<and>
    observed (snd (createNormalOrder (run [Subscribe 7, Subscribe 8] init))) =
      [(7, ORDER_ADDED, [0]), (8, ORDER_ADDED, [0])]) \<and>
   (messageQueue observer_then_idle_bot = map ObserverTask [7] @ [ControllerTask] \<and>
    hasIdleBot observer_then_idle_bot \<and>
    observed observer_then_idle_bot = [] \<and>
    observed (snd (createNormalOrder observer_then_idle_bot)) =
      [(7, ORDER_ADDED, [0]), (7, ORDER_UPDATED, []), (7, ORDER_COUNTER, [])]) \<and>
   (reachable recovered_and_observer \<and>
    idle_bots recovered_and_observer = [0] \<and>
    pending recovered_and_observer = [1] \<and>
    queueComplete recovered_and_observer = [0] \<and>
    fst (createVipOrder recovered_and_observer) = 2 \<and>
    observed (snd (createVipOrder recovered_and_observer)) =
      [(3, ORDER_UPDATED, [2, 0]), (3, ORDER_COUNTER, [2, 0]), (3, ORDER_ADDED, [2, 0])] \<and>
    fst (createNormalOrder recovered_and_observer) = 2 \<and>
    observed (snd (createNormalOrder recovered_and_observer)) =
      [(3, ORDER_UPDATED, [2, 0]), (3, ORDER_COUNTER, [2, 0]), (3, ORDER_ADDED, [2, 0])]) \<and>
   (reachable two_idle_and_observer \<and>
    idle_bots two_idle_and_observer = [0, 1] \<and>
    pending two_idle_and_observer = [] \<and>
    fst (createVipOrder two_idle_and_observer) = 0 \<and>
    observed (snd (createVipOrder two_idle_and_observer)) =
      [(5, ORDER_UPDATED, []), (5, ORDER_COUNTER, []), (5, ORDER_ADDED, [])])"
proof -
  let ?s = "run [Subscribe 7, Subscribe 8] init"
  have a: "\<not> hasIdleBot ?s" "observers (messageQueue ?s) = [7, 8]" "observed ?s = []"
    "getOrderList ?s = []" "fst (createNormalOrder ?s) = 0"
    "queueCache ?s = []" "queueVipOrder ?s = []" "queueNormalOrder ?s = []" "queueComplete ?s = []"
    by (simp_all add: engine_defs)
  have b: "messageQueue observer_then_idle_bot = map ObserverTask [7] @ [ControllerTask]"
    "hasIdleBot observer_then_idle_bot" "observed observer_then_idle_bot = []"
    "observed (snd (createNormalOrder observer_then_idle_bot)) =
      [(7, ORDER_ADDED, [0]), (7, ORDER_UPDATED, []), (7, ORDER_COUNTER, [])]"
    by (simp_all add: observer_then_idle_bot_def engine_defs)
  have r1: "reachable recovered_and_observer"
    unfolding recovered_and_observer_def running_bot_destroyed_def vip_done_normal_running_def
    using reachable_step [of _ Decrease] by (simp add: reachable_run reachable_init)
  have r2: "reachable two_idle_and_observer"
    unfolding two_idle_and_observer_def by (rule reachable_run) (rule reachable_init)
  have c: "idle_bots recovered_and_observer = [0]" "pending recovered_and_observer = [1]"
    "queueComplete recovered_and_observer = [0]" "observed recovered_and_observer = []"
    "fst (createVipOrder recovered_and_observer) = 2"
    "fst (createNormalOrder recovered_and_observer) = 2"
    "observed (snd (createVipOrder recovered_and_observer)) =
      [(3, ORDER_UPDATED, [2, 0]), (3, ORDER_COUNTER, [2, 0]), (3, ORDER_ADDED, [2, 0])]"
    "observed (snd (createNormalOrder recovered_and_observer)) =
      [(3, ORDER_UPDATED, [2, 0]), (3, ORDER_COUNTER, [2, 0]), (3, ORDER_ADDED, [2, 0])]"
    by (simp_all add: recovered_and_observer_def running_bot_destroyed_def
        vip_done_normal_running_def idle_bots_def pending_def engine_defs)
  have d: "idle_bots two_idle_and_observer = [0, 1]" "pending two_idle_and_observer = []"
    "fst (createVipOrder two_idle_and_observer) = 0"
    "observed (snd (createVipOrder two_idle_and_observer)) =
      [(5, ORDER_UPDATED, []), (5, ORDER_COUNTER, []), (5, ORDER_ADDED, [])]"
    by (simp_all add: two_idle_and_observer_def idle_bots_def pending_def engine_defs)
  from publish_in_registration_order [of ORDER_ADDED ?s "[]" "[]"]
    publish_in_registration_order [of ORDER_ADDED observer_then_idle_bot "[7]" "[ControllerTask]"]
    publish_in_registration_order [where s = recovered_and_observer]
    publish_in_registration_order [where s = two_idle_and_observer]
  show ?thesis using a b c d r1 r2 by simp
qed

end
